theory Spec2Isabelle
  imports Complex_Main "HOL-Library.Word" "HOL-Library.Monad_Syntax" "HOL-Library.Char_ord"
    "HOL-Library.List_Lexorder" "HOL-Library.Multiset"
begin

unbundle bit_operations_syntax

section \<open>Errors\<close>

text \<open>
  Every rejection of a promise and every thrown exception of the source is a value of
  this type. \<open>TimeoutError\<close> is the class of the promise-timeout package,
  \<open>ClientClosedError\<close> and \<open>ReplyError\<close> come from the Redis client,
  \<open>SyntaxError\<close> is what \<open>JSON.parse\<close> throws, \<open>TypeError\<close> what a method
  call on \<open>undefined\<close> throws, \<open>Error\<close> is the plain class with its message.
\<close>

datatype error =
  TimeoutError | ClientClosedError | ReplyError string | SyntaxError | TypeError | Error string

section \<open>Backoff and the coalescing waiter (util.ts)\<close>

text \<open>
  \<^verbatim>\<open>exponentialBackOffMs = (retryCount = 1, interval = 100, max = 1000, coefficient = 2) =>
    Math.min(max, interval * coefficient ** (retryCount - 1))\<close>

  A missing argument is \<open>None\<close> and takes the default of the source. The retry count is
  an integer, the three other numbers are reals (the rounding of IEEE doubles is not
  modelled); \<open>powi\<close> is the power with an integer exponent, so that a retry count below 1
  gives the reciprocal power as \<open>**\<close> does.
\<close>

definition exponentialBackOffMs :: "int option \<Rightarrow> real option \<Rightarrow> real option \<Rightarrow> real option \<Rightarrow> real" where
  "exponentialBackOffMs retryCount interval mx coefficient =
     (let retryCount = (case retryCount of None \<Rightarrow> 1 | Some n \<Rightarrow> n);
          interval = (case interval of None \<Rightarrow> 100 | Some i \<Rightarrow> i);
          mx = (case mx of None \<Rightarrow> 1000 | Some m \<Rightarrow> m);
          coefficient = (case coefficient of None \<Rightarrow> 2 | Some c \<Rightarrow> c)
      in min mx (interval * (coefficient powi (retryCount - 1))))"

text \<open>
  What \<open>getWithCoalescing\<close> does to the outside world, in order: a call of \<open>get\<close>, a call
  of \<open>isInFlight\<close> (each with the retry count it is given) and a \<open>delay\<close> of so many
  milliseconds.
\<close>

datatype event = CallGet int | CallIsInFlight int | Sleep nat

text \<open>
  \<^verbatim>\<open>const _self = async (_retries: number) => {
    if (_retries === 0) return
    const retryCount = retries - _retries + 1
    const entry = await get(retryCount)
    if (entry) return entry
    const inFlight = await isInFlight(retryCount)
    if (!inFlight) return
    await delay(interval(retryCount))
    return await _self(_retries - 1)
  }
  return await _self(retries)\<close>

  The two callbacks are functions of the retry count; a rejected promise is \<open>Inl\<close> and
  ends the loop, as the \<open>await\<close> rethrows it. An entry is an object, hence truthy when it
  is there. The counter is an integer compared with \<open>=== 0\<close>, so the recursion is not
  structural: \<open>self\<close> is a partial function, \<open>None\<close> when it never returns.
\<close>

type_synonym 'e waited = "(error + 'e option) \<times> event list"

partial_function (option) self ::
  "(int \<Rightarrow> error + 'e option) \<Rightarrow> (int \<Rightarrow> error + bool) \<Rightarrow> int \<Rightarrow> (int \<Rightarrow> nat) \<Rightarrow> int \<Rightarrow> 'e waited option"
where
  "self get isInFlight retries interval rem =
     (if rem = 0 then Some (Inr None, [])
      else
        (let retryCount = retries - rem + 1 in
         case get retryCount of
           Inl e \<Rightarrow> Some (Inl e, [CallGet retryCount])
         | Inr entry \<Rightarrow>
             if entry \<noteq> None then Some (Inr entry, [CallGet retryCount])
             else
               (case isInFlight retryCount of
                  Inl e \<Rightarrow> Some (Inl e, [CallGet retryCount, CallIsInFlight retryCount])
                | Inr inFlight \<Rightarrow>
                    if \<not> inFlight then Some (Inr None, [CallGet retryCount, CallIsInFlight retryCount])
                    else
                      do {
                        rt \<leftarrow> self get isInFlight retries interval (rem - 1);
                        Some (fst rt,
                          CallGet retryCount # CallIsInFlight retryCount # Sleep (interval retryCount) # snd rt)
                      })))"

definition getWithCoalescing ::
  "(int \<Rightarrow> error + 'e option) \<Rightarrow> (int \<Rightarrow> error + bool) \<Rightarrow> int \<Rightarrow> (int \<Rightarrow> nat) \<Rightarrow> 'e waited option" where
  "getWithCoalescing get isInFlight retries interval = self get isInFlight retries interval retries"

text \<open>
  The waiter as the specification words it: attempts are numbered from 1, attempt \<open>k\<close>
  is made while budget remains, and the budget counts down.
\<close>

fun awaitProduction ::
  "(int \<Rightarrow> error + 'e option) \<Rightarrow> (int \<Rightarrow> error + bool) \<Rightarrow> (int \<Rightarrow> nat) \<Rightarrow> nat \<Rightarrow> int \<Rightarrow> 'e waited" where
  "awaitProduction get isInFlight interval 0 k = (Inr None, [])"
| "awaitProduction get isInFlight interval (Suc budget) k =
     (case get k of
        Inl e \<Rightarrow> (Inl e, [CallGet k])
      | Inr (Some entry) \<Rightarrow> (Inr (Some entry), [CallGet k])
      | Inr None \<Rightarrow>
          (case isInFlight k of
             Inl e \<Rightarrow> (Inl e, [CallGet k, CallIsInFlight k])
           | Inr False \<Rightarrow> (Inr None, [CallGet k, CallIsInFlight k])
           | Inr True \<Rightarrow>
               (let rt = awaitProduction get isInFlight interval budget (k + 1)
                in (fst rt, CallGet k # CallIsInFlight k # Sleep (interval k) # snd rt))))"

fun is_get :: "event \<Rightarrow> bool" where
  "is_get (CallGet k) = True"
| "is_get e = False"

fun is_inflight :: "event \<Rightarrow> bool" where
  "is_inflight (CallIsInFlight k) = True"
| "is_inflight e = False"

fun is_sleep :: "event \<Rightarrow> bool" where
  "is_sleep (Sleep ms) = True"
| "is_sleep e = False"

fun slept :: "event \<Rightarrow> nat" where
  "slept (Sleep ms) = ms"
| "slept e = 0"

definition total_sleep :: "event list \<Rightarrow> nat" where
  "total_sleep tr = sum_list (map slept tr)"

section \<open>Redis options and their redaction (redis.ts)\<close>

text \<open>
  The options of the cache: the fields the source reads or sets. Strings are lists of
  8-bit code units; every text of the sources is ASCII.
\<close>

record redis_options =
  host :: string
  port :: nat
  password :: "string option"
  url :: "string option"
  commandsQueueMaxLength :: nat
  maxAge :: int
  timeout :: nat

text \<open>
  In a regular expression without the \<open>s\<close> flag, \<open>.\<close> matches every character but a
  line terminator (of the 8-bit characters: line feed and carriage return).
\<close>

definition isLineTerminator :: "char \<Rightarrow> bool" where
  "isLineTerminator c = (c = CHR 0x0A \<or> c = CHR 0x0D)"

text \<open>
  \<^verbatim>\<open>s.replace(/.+/g, '*****')\<close>: from left to right, every maximal run of characters
  other than line terminators is replaced by the mask; line terminators stay.
\<close>

function replace_dot_plus :: "string \<Rightarrow> string" where
  "replace_dot_plus [] = []"
| "replace_dot_plus (c # cs) =
     (if isLineTerminator c then c # replace_dot_plus cs
      else ''*****'' @ replace_dot_plus (dropWhile (\<lambda>d. \<not> isLineTerminator d) cs))"
  by pat_completeness auto
termination
  by (relation "measure length") (auto simp: less_Suc_eq_le length_dropWhile_le)

text \<open>
  A match of \<^verbatim>\<open>/:\/\/.+@/\<close> at the start of \<open>s\<close>: \<open>s\<close> starts with \<open>://\<close>, and the run of
  characters up to the next line terminator holds an \<open>@\<close> that is not its first
  character. The match is greedy, it ends at the last such \<open>@\<close>; the result is its length.
\<close>

definition match_credentials :: "string \<Rightarrow> nat option" where
  "match_credentials s =
     (if take 3 s = ''://'' then
        (let run = takeWhile (\<lambda>d. \<not> isLineTerminator d) (drop 3 s);
             after = length (takeWhile (\<lambda>d. d \<noteq> CHR ''@'') (rev run))
         in if Suc after < length run then Some (3 + (length run - after)) else None)
      else None)"

text \<open>
  \<^verbatim>\<open>s.replace(/:\/\/.+@/g, '://*****@')\<close>: the leftmost match is replaced and the scan goes
  on behind it (a match is at least four characters long, \<open>n - 1\<close> of them in \<open>cs\<close>).
\<close>

fun replace_credentials :: "string \<Rightarrow> string" where
  "replace_credentials [] = []"
| "replace_credentials (c # cs) =
     (case match_credentials (c # cs) of
        Some n \<Rightarrow> ''://*****@'' @ replace_credentials (drop (n - 1) cs)
      | None \<Rightarrow> c # replace_credentials cs)"

text \<open>
  \<^verbatim>\<open>export const redactOptions = (opts: RedisOptions): RedisOptions => {
    if (opts.password) opts.password = opts.password.replace(/.+/g, '*****')
    if (opts.url) opts.url = opts.url.replace(/:\/\/.+@/g, '://*****@')
    return opts
  }\<close>
  An empty string is falsy, as a missing one is.
\<close>

definition redactOptions :: "'a redis_options_scheme \<Rightarrow> 'a redis_options_scheme" where
  "redactOptions opts =
     (let opts1 =
        (case password opts of
           None \<Rightarrow> opts
         | Some p \<Rightarrow> if p \<noteq> [] then opts\<lparr>password := Some (replace_dot_plus p)\<rparr> else opts)
      in case url opts1 of
           None \<Rightarrow> opts1
         | Some u \<Rightarrow> if u \<noteq> [] then opts1\<lparr>url := Some (replace_credentials u)\<rparr> else opts1)"

section \<open>JSON values\<close>

text \<open>
  The values of JavaScript that the cache and the key derivation handle: those of JSON,
  and \<open>undefined\<close>. An object is the list of its properties in insertion order, with
  distinct keys. A number \<open>JNum m e\<close> is the decimal number \<open>m * 10 ^ e\<close>, with \<open>m\<close> not
  divisible by 10 and \<open>JNum 0 0\<close> for zero; this is exact for numbers of at most 15
  significant digits, the rounding of IEEE doubles beyond that is not modelled.
\<close>

datatype json =
    JUndefined
  | JNull
  | JBool bool
  | JNum int int
  | JStr string
  | JArr "json list"
  | JObj "(string \<times> json) list"

text \<open>\<open>!!v\<close>: what \<open>if (v)\<close> tests.\<close>

fun truthy :: "json \<Rightarrow> bool" where
  "truthy JUndefined = False"
| "truthy JNull = False"
| "truthy (JBool b) = b"
| "truthy (JNum m e) = (m \<noteq> 0)"
| "truthy (JStr s) = (s \<noteq> [])"
| "truthy (JArr xs) = True"
| "truthy (JObj kvs) = True"

text \<open>\<open>obj[k] = v\<close>: an existing property keeps its place, a new one goes last.\<close>

fun put :: "string \<Rightarrow> json \<Rightarrow> (string \<times> json) list \<Rightarrow> (string \<times> json) list" where
  "put k v [] = [(k, v)]"
| "put k v ((k', v') # kvs) = (if k = k' then (k, v) # kvs else (k', v') # put k v kvs)"

definition digit_char :: "nat \<Rightarrow> char" where
  "digit_char d = char_of (48 + d)"

fun decimal :: "nat \<Rightarrow> string" where
  "decimal n = (if n < 10 then [digit_char n] else decimal (n div 10) @ [digit_char (n mod 10)])"

declare decimal.simps [simp del]

definition isDigit :: "char \<Rightarrow> bool" where
  "isDigit c = (48 \<le> (of_char c :: nat) \<and> (of_char c :: nat) \<le> 57)"

definition digit_val :: "char \<Rightarrow> nat" where
  "digit_val c = of_char c - 48"

definition digits_val :: "string \<Rightarrow> nat" where
  "digits_val ds = foldl (\<lambda>n d. 10 * n + digit_val d) 0 ds"

function strip_zeros :: "nat \<Rightarrow> int \<Rightarrow> nat \<times> int" where
  "strip_zeros m e =
     (if m = 0 then (0, 0) else if m mod 10 = 0 then strip_zeros (m div 10) (e + 1) else (m, e))"
  by pat_completeness auto
termination
  by (relation "measure fst") auto

declare strip_zeros.simps [simp del]

definition number :: "bool \<Rightarrow> nat \<Rightarrow> int \<Rightarrow> json" where
  "number negative m e =
     (case strip_zeros m e of (m', e') \<Rightarrow> JNum (if negative then - int m' else int m') e')"

text \<open>
  Modelled from the spec: \<open>Number.prototype.toString\<close> is the language's, not the
  repository's. With \<open>k\<close> digits \<open>s\<close> and \<open>n = k + e\<close>, ECMAScript prints the digits plainly
  for \<open>-6 < n \<le> 21\<close> and in exponent notation otherwise.
\<close>

definition Number_toString :: "int \<Rightarrow> int \<Rightarrow> string" where
  "Number_toString m e =
     (if m = 0 then ''0''
      else
        (let s = decimal (nat \<bar>m\<bar>);
             k = int (length s);
             n = k + e;
             sign = (if m < 0 then ''-'' else [])
         in sign @
           (if k \<le> n \<and> n \<le> 21 then s @ replicate (nat (n - k)) CHR ''0''
            else if 0 < n \<and> n \<le> 21 then take (nat n) s @ ''.'' @ drop (nat n) s
            else if - 6 < n \<and> n \<le> 0 then ''0.'' @ replicate (nat (- n)) CHR ''0'' @ s
            else
              (let ex = (if 0 \<le> n - 1 then ''+'' else ''-'') @ decimal (nat \<bar>n - 1\<bar>)
               in if k = 1 then s @ ''e'' @ ex
                  else take 1 s @ ''.'' @ drop 1 s @ ''e'' @ ex))))"

subsection \<open>JSON.parse\<close>

text \<open>
  Modelled from the spec: \<open>JSON.parse\<close> is the language's, not the repository's. The text
  is cut into tokens (the JSON grammar of ECMA-404: four whitespace characters, six
  punctuation marks, strings with escapes and no control characters, numbers, three
  literals), and the tokens drive a pushdown automaton that builds the value. Any
  text outside the grammar is a \<open>SyntaxError\<close>. A \<open>\u\<close> escape is kept modulo 256.
\<close>

datatype token = TLBrace | TRBrace | TLBrack | TRBrack | TColon | TComma | TValue json

definition isWhitespace :: "char \<Rightarrow> bool" where
  "isWhitespace c = (c = CHR 0x20 \<or> c = CHR 0x09 \<or> c = CHR 0x0A \<or> c = CHR 0x0D)"

definition isNumberChar :: "char \<Rightarrow> bool" where
  "isNumberChar c = (isDigit c \<or> c \<in> set ''+-.eE'')"

definition isLetter :: "char \<Rightarrow> bool" where
  "isLetter c = (97 \<le> (of_char c :: nat) \<and> (of_char c :: nat) \<le> 122)"

definition hex_val :: "char \<Rightarrow> nat option" where
  "hex_val c =
     (let n = (of_char c :: nat) in
      if 48 \<le> n \<and> n \<le> 57 then Some (n - 48)
      else if 97 \<le> n \<and> n \<le> 102 then Some (n - 87)
      else if 65 \<le> n \<and> n \<le> 70 then Some (n - 55)
      else None)"

definition unescape :: "char \<Rightarrow> char option" where
  "unescape c =
     (if c = CHR 0x22 then Some (CHR 0x22)
      else if c = CHR 0x5C then Some (CHR 0x5C)
      else if c = CHR ''/'' then Some (CHR ''/'')
      else if c = CHR ''b'' then Some (CHR 0x08)
      else if c = CHR ''f'' then Some (CHR 0x0C)
      else if c = CHR ''n'' then Some (CHR 0x0A)
      else if c = CHR ''r'' then Some (CHR 0x0D)
      else if c = CHR ''t'' then Some (CHR 0x09)
      else None)"

fun unicode_escape :: "string \<Rightarrow> char option" where
  "unicode_escape [a, b, c, d] =
     (case (hex_val a, hex_val b, hex_val c, hex_val d) of
        (Some h3, Some h2, Some h1, Some h0) \<Rightarrow> Some (char_of (((h3 * 16 + h2) * 16 + h1) * 16 + h0))
      | _ \<Rightarrow> None)"
| "unicode_escape hs = None"

text \<open>
  The string that starts behind an opening quote: its characters, and how many
  characters of the text it takes, the closing quote included.
\<close>

fun lex_string :: "string \<Rightarrow> (string \<times> nat) option" where
  "lex_string [] = None"
| "lex_string (c # cs) =
     (if c = CHR 0x22 then Some ([], 1)
      else if c = CHR 0x5C then
        (case cs of
           [] \<Rightarrow> None
         | e # cs' \<Rightarrow>
             if e = CHR ''u'' then
               (case unicode_escape (take 4 cs') of
                  None \<Rightarrow> None
                | Some u \<Rightarrow>
                    (case lex_string (drop 4 cs') of
                       None \<Rightarrow> None
                     | Some (s, n) \<Rightarrow> Some (u # s, n + 6)))
             else
               (case unescape e of
                  None \<Rightarrow> None
                | Some u \<Rightarrow>
                    (case lex_string cs' of
                       None \<Rightarrow> None
                     | Some (s, n) \<Rightarrow> Some (u # s, n + 2))))
      else if (of_char c :: nat) < 32 then None
      else
        (case lex_string cs of
           None \<Rightarrow> None
         | Some (s, n) \<Rightarrow> Some (c # s, n + 1)))"

definition lex_exponent :: "string \<Rightarrow> int option" where
  "lex_exponent r =
     (case r of
        [] \<Rightarrow> Some 0
      | c # r' \<Rightarrow>
          if c = CHR ''e'' \<or> c = CHR ''E'' then
            (let negative = (take 1 r' = ''-'');
                 ds = (if take 1 r' = ''-'' \<or> take 1 r' = ''+'' then drop 1 r' else r')
             in if ds \<noteq> [] \<and> list_all isDigit ds
                then Some (if negative then - int (digits_val ds) else int (digits_val ds))
                else None)
          else None)"

text \<open>
  A number: an optional minus, an integer part without a leading zero, an optional
  fraction, an optional exponent, and nothing else.
\<close>

definition lex_number :: "string \<Rightarrow> json option" where
  "lex_number s =
     (let negative = (take 1 s = ''-'');
          r1 = (if negative then drop 1 s else s);
          ip = takeWhile isDigit r1;
          r2 = dropWhile isDigit r1;
          fp = (if take 1 r2 = ''.'' then takeWhile isDigit (drop 1 r2) else []);
          r3 = (if take 1 r2 = ''.'' then dropWhile isDigit (drop 1 r2) else r2)
      in if ip = [] \<or> (1 < length ip \<and> take 1 ip = ''0'') then None
         else if take 1 r2 = ''.'' \<and> fp = [] then None
         else
           (case lex_exponent r3 of
              None \<Rightarrow> None
            | Some ex \<Rightarrow> Some (number negative (digits_val (ip @ fp)) (ex - int (length fp)))))"

definition lex_literal :: "string \<Rightarrow> json option" where
  "lex_literal w =
     (if w = ''true'' then Some (JBool True)
      else if w = ''false'' then Some (JBool False)
      else if w = ''null'' then Some JNull
      else None)"

definition punctuation :: "char \<Rightarrow> token option" where
  "punctuation c =
     (if c = CHR 0x7B then Some TLBrace
      else if c = CHR 0x7D then Some TRBrace
      else if c = CHR ''['' then Some TLBrack
      else if c = CHR '']'' then Some TRBrack
      else if c = CHR '':'' then Some TColon
      else if c = CHR '','' then Some TComma
      else None)"

function tokenize :: "string \<Rightarrow> token list option" where
  "tokenize [] = Some []"
| "tokenize (c # cs) =
     (if isWhitespace c then tokenize cs
      else if punctuation c \<noteq> None then map_option (Cons (the (punctuation c))) (tokenize cs)
      else if c = CHR 0x22 then
        (case lex_string cs of
           None \<Rightarrow> None
         | Some (s, n) \<Rightarrow> map_option (Cons (TValue (JStr s))) (tokenize (drop n cs)))
      else if isNumberChar c then
        (case lex_number (c # takeWhile isNumberChar cs) of
           None \<Rightarrow> None
         | Some v \<Rightarrow> map_option (Cons (TValue v)) (tokenize (dropWhile isNumberChar cs)))
      else if isLetter c then
        (case lex_literal (c # takeWhile isLetter cs) of
           None \<Rightarrow> None
         | Some v \<Rightarrow> map_option (Cons (TValue v)) (tokenize (dropWhile isLetter cs)))
      else None)"
  by pat_completeness auto
termination
  by (relation "measure length") (auto simp: less_Suc_eq_le length_dropWhile_le)

text \<open>
  The automaton: what it waits for, and the arrays and objects that are open. \<open>FKey kvs k\<close>
  is an object that waits for the value of its key \<open>k\<close>.
\<close>

datatype frame = FArr "json list" | FObj "(string \<times> json) list" | FKey "(string \<times> json) list" string

datatype mode =
  WantValue | WantValueOrClose | WantKeyOrClose | WantKey | WantColon | WantCommaOrClose | Finished json

fun complete :: "json \<Rightarrow> frame list \<Rightarrow> (mode \<times> frame list) option" where
  "complete v [] = Some (Finished v, [])"
| "complete v (FArr xs # st) = Some (WantCommaOrClose, FArr (xs @ [v]) # st)"
| "complete v (FKey kvs k # st) = Some (WantCommaOrClose, FObj (put k v kvs) # st)"
| "complete v (FObj kvs # st) = None"

fun begin_value :: "token \<Rightarrow> frame list \<Rightarrow> (mode \<times> frame list) option" where
  "begin_value (TValue v) st = complete v st"
| "begin_value TLBrack st = Some (WantValueOrClose, FArr [] # st)"
| "begin_value TLBrace st = Some (WantKeyOrClose, FObj [] # st)"
| "begin_value t st = None"

fun begin_key :: "token \<Rightarrow> frame list \<Rightarrow> (mode \<times> frame list) option" where
  "begin_key (TValue (JStr k)) (FObj kvs # st) = Some (WantColon, FKey kvs k # st)"
| "begin_key t st = None"

fun parse_step :: "mode \<times> frame list \<Rightarrow> token \<Rightarrow> (mode \<times> frame list) option" where
  "parse_step (WantValue, st) t = begin_value t st"
| "parse_step (WantValueOrClose, st) t =
     (case (t, st) of
        (TRBrack, FArr xs # st') \<Rightarrow> complete (JArr xs) st'
      | _ \<Rightarrow> begin_value t st)"
| "parse_step (WantKeyOrClose, st) t =
     (case (t, st) of
        (TRBrace, FObj kvs # st') \<Rightarrow> complete (JObj kvs) st'
      | _ \<Rightarrow> begin_key t st)"
| "parse_step (WantKey, st) t = begin_key t st"
| "parse_step (WantColon, st) t = (case t of TColon \<Rightarrow> Some (WantValue, st) | _ \<Rightarrow> None)"
| "parse_step (WantCommaOrClose, st) t =
     (case (t, st) of
        (TComma, FArr xs # st') \<Rightarrow> Some (WantValue, st)
      | (TRBrack, FArr xs # st') \<Rightarrow> complete (JArr xs) st'
      | (TComma, FObj kvs # st') \<Rightarrow> Some (WantKey, st)
      | (TRBrace, FObj kvs # st') \<Rightarrow> complete (JObj kvs) st'
      | _ \<Rightarrow> None)"
| "parse_step (Finished v, st) t = None"

fun parse_tokens :: "mode \<times> frame list \<Rightarrow> token list \<Rightarrow> (mode \<times> frame list) option" where
  "parse_tokens s [] = Some s"
| "parse_tokens s (t # ts) = (case parse_step s t of None \<Rightarrow> None | Some s' \<Rightarrow> parse_tokens s' ts)"

definition JSON_parse :: "string \<Rightarrow> error + json" where
  "JSON_parse text =
     (case tokenize text of
        None \<Rightarrow> Inl SyntaxError
      | Some ts \<Rightarrow>
          (case parse_tokens (WantValue, []) ts of
             Some (Finished v, st) \<Rightarrow> Inr v
           | _ \<Rightarrow> Inl SyntaxError))"

subsection \<open>JSON.stringify\<close>

text \<open>
  Modelled from the spec: \<open>JSON.stringify\<close> is the language's, not the repository's. In an
  array \<open>undefined\<close> prints as \<open>null\<close>, in an object a property that is \<open>undefined\<close> is
  left out, and \<open>undefined\<close> itself has no text.
\<close>

definition hex_digit :: "nat \<Rightarrow> char" where
  "hex_digit d = (if d < 10 then char_of (48 + d) else char_of (87 + d))"

definition quote_char :: "char \<Rightarrow> string" where
  "quote_char c =
     (if c = CHR 0x22 then [CHR 0x5C, CHR 0x22]
      else if c = CHR 0x5C then [CHR 0x5C, CHR 0x5C]
      else if c = CHR 0x08 then [CHR 0x5C, CHR ''b'']
      else if c = CHR 0x0C then [CHR 0x5C, CHR ''f'']
      else if c = CHR 0x0A then [CHR 0x5C, CHR ''n'']
      else if c = CHR 0x0D then [CHR 0x5C, CHR ''r'']
      else if c = CHR 0x09 then [CHR 0x5C, CHR ''t'']
      else if (of_char c :: nat) < 32
        then [CHR 0x5C, CHR ''u'', CHR ''0'', CHR ''0'',
              hex_digit ((of_char c :: nat) div 16), hex_digit ((of_char c :: nat) mod 16)]
      else [c])"

definition JSON_quote :: "string \<Rightarrow> string" where
  "JSON_quote s = [CHR 0x22] @ concat (map quote_char s) @ [CHR 0x22]"

fun join :: "string \<Rightarrow> string list \<Rightarrow> string" where
  "join sep [] = []"
| "join sep [x] = x"
| "join sep (x # y # ys) = x @ sep @ join sep (y # ys)"

fun stringify :: "json \<Rightarrow> string" where
  "stringify JUndefined = ''null''"
| "stringify JNull = ''null''"
| "stringify (JBool b) = (if b then ''true'' else ''false'')"
| "stringify (JNum m e) = Number_toString m e"
| "stringify (JStr s) = JSON_quote s"
| "stringify (JArr xs) = ''['' @ join '','' (map stringify xs) @ '']''"
| "stringify (JObj kvs) =
     [CHR 0x7B] @
     join '',''
       (map snd
         (filter fst
           (map (\<lambda>(k, v). (v \<noteq> JUndefined, JSON_quote k @ '':'' @ stringify v)) kvs))) @
     [CHR 0x7D]"

definition JSON_stringify :: "json \<Rightarrow> string option" where
  "JSON_stringify v = (if v = JUndefined then None else Some (stringify v))"

section \<open>The Redis cache (redis.ts)\<close>

subsection \<open>Promises and the timeout\<close>

text \<open>
  A promise either settles, so many milliseconds after the call and with a value or an
  error, or stays pending for ever.

  Modelled from the spec: \<open>timeout\<close> of the promise-timeout package is not the
  repository's. \<open>timeout(promise, ms)\<close> settles as \<open>promise\<close> does when that settles within
  \<open>ms\<close> milliseconds and rejects with a \<open>TimeoutError\<close> otherwise.
\<close>

datatype 'a promise = Settles nat "error + 'a" | Pending

definition promise_timeout :: "'a promise \<Rightarrow> nat \<Rightarrow> error + 'a" where
  "promise_timeout p ms =
     (case p of
        Settles t r \<Rightarrow> if t \<le> ms then r else Inl TimeoutError
      | Pending \<Rightarrow> Inl TimeoutError)"

subsection \<open>The client\<close>

text \<open>
  Modelled from the spec: the client of the node-redis package is not the repository's.
  The server keeps, for a key, a string and the time at which it expires; the client is
  open or closed and has listeners. How the network treats one command is an argument:
  the server runs it and its reply arrives after \<open>t\<close> ms, or the connection breaks after
  \<open>t\<close> ms with an error and the command is not run, or nothing ever comes back.
  A closed client rejects every command at once with a \<open>ClientClosedError\<close>.
\<close>

datatype net = Reply nat | Broken nat error | Silent

record redis_client =
  isOpen :: bool
  entries :: "string \<Rightarrow> (string \<times> nat) option"
  listeners :: "string list"

definition stored :: "redis_client \<Rightarrow> nat \<Rightarrow> string \<Rightarrow> string option" where
  "stored c now key =
     (case entries c key of
        None \<Rightarrow> None
      | Some (v, expires) \<Rightarrow> if now < expires then Some v else None)"

definition command ::
  "redis_client \<Rightarrow> net \<Rightarrow> (error + 'a) \<Rightarrow> redis_client \<Rightarrow> 'a promise \<times> redis_client" where
  "command c nw reply c' =
     (if \<not> isOpen c then (Settles 0 (Inl ClientClosedError), c)
      else
        (case nw of
           Reply t \<Rightarrow> (Settles t reply, c')
         | Broken t e \<Rightarrow> (Settles t (Inl e), c)
         | Silent \<Rightarrow> (Pending, c)))"

text \<open>\<open>client.set(key, value, { PX: px })\<close>, run by the server at time \<open>now\<close>.\<close>

definition client_set ::
  "redis_client \<Rightarrow> nat \<Rightarrow> net \<Rightarrow> string \<Rightarrow> string \<Rightarrow> int \<Rightarrow> string option promise \<times> redis_client" where
  "client_set c now nw key v px =
     (if px \<le> 0 then command c nw (Inl (ReplyError ''ERR invalid expire time in set'')) c
      else command c nw (Inr (Some ''OK'')) (c\<lparr>entries := (entries c)(key \<mapsto> (v, now + nat px))\<rparr>))"

definition client_get ::
  "redis_client \<Rightarrow> nat \<Rightarrow> net \<Rightarrow> string \<Rightarrow> string option promise \<times> redis_client" where
  "client_get c now nw key = command c nw (Inr (stored c now key)) c"

definition client_del ::
  "redis_client \<Rightarrow> nat \<Rightarrow> net \<Rightarrow> string \<Rightarrow> int promise \<times> redis_client" where
  "client_del c now nw key =
     command c nw (Inr (if stored c now key = None then 0 else 1)) (c\<lparr>entries := (entries c)(key := None)\<rparr>)"

definition client_pTTL ::
  "redis_client \<Rightarrow> nat \<Rightarrow> net \<Rightarrow> string \<Rightarrow> int promise \<times> redis_client" where
  "client_pTTL c now nw key =
     command c nw
       (Inr (case entries c key of
               None \<Rightarrow> - 2
             | Some (v, expires) \<Rightarrow> if now < expires then int expires - int now else - 2))
       c"

text \<open>\<open>client.quit()\<close>: the client is closed from the call on, whatever the network does.\<close>

definition client_quit :: "redis_client \<Rightarrow> net \<Rightarrow> string promise \<times> redis_client" where
  "client_quit c nw =
     (case command c nw (Inr ''OK'') c of (p, c') \<Rightarrow> (p, c'\<lparr>isOpen := False\<rparr>))"

definition removeAllListeners :: "redis_client \<Rightarrow> redis_client" where
  "removeAllListeners c = c\<lparr>listeners := []\<rparr>"

subsection \<open>The cache\<close>

text \<open>
  The cache holds its options, its client (the constructor sets it; \<open>close\<close> tests it)
  and, standing for the metrics module, the counter \<open>redis_commands_sent_count\<close> with its
  two labels, the status and the function name. Logging is left out: it changes no
  result.
\<close>

datatype cmd_status = SUCCESS | TIMEOUT | FAIL

record redis_cache =
  options :: redis_options
  client :: "redis_client option"
  commands_sent :: "cmd_status \<times> string \<Rightarrow> nat"

text \<open>The constructor: a client with the five listeners of the source.\<close>

definition new_RedisCache :: "redis_options \<Rightarrow> (string \<Rightarrow> (string \<times> nat) option) \<Rightarrow> redis_cache" where
  "new_RedisCache opts server =
     \<lparr>options = opts,
      client = Some \<lparr>isOpen = True, entries = server,
        listeners = [''error'', ''end'', ''connect'', ''ready'', ''reconnecting'']\<rparr>,
      commands_sent = (\<lambda>l. 0)\<rparr>"

definition inc :: "cmd_status \<Rightarrow> string \<Rightarrow> redis_cache \<Rightarrow> redis_cache" where
  "inc status fnName cache =
     cache\<lparr>commands_sent :=
       (commands_sent cache)((status, fnName) := Suc (commands_sent cache (status, fnName)))\<rparr>"

text \<open>
  \<^verbatim>\<open>try {
    const result = await timeout(promise, this.options.timeout)
    metrics.redis_commands_sent_count.labels({ status: SUCCESS, function_name: fnName }).inc()
    return result
  } catch (e) {
    if (e instanceof TimeoutError) {
      ... labels({ status: TIMEOUT, function_name: fnName }).inc()
      throw e
    }
    ... labels({ status: FAIL, function_name: fnName }).inc()
    throw e
  }\<close>
\<close>

definition contextualTimeout ::
  "redis_cache \<Rightarrow> 'a promise \<Rightarrow> string \<Rightarrow> (error + 'a) \<times> redis_cache" where
  "contextualTimeout cache p fnName =
     (case promise_timeout p (timeout (options cache)) of
        Inr result \<Rightarrow> (Inr result, inc SUCCESS fnName cache)
      | Inl e \<Rightarrow>
          if e = TimeoutError then (Inl e, inc TIMEOUT fnName cache)
          else (Inl e, inc FAIL fnName cache))"

text \<open>
  Each method takes, before the arguments of the source, the time at which the server
  runs the command and what the network does to it. A method called on a cache without
  a client throws a \<open>TypeError\<close> before any command is sent.
\<close>

definition setResponse ::
  "redis_cache \<Rightarrow> nat \<Rightarrow> net \<Rightarrow> string \<Rightarrow> json \<Rightarrow> int \<Rightarrow> (error + string option) \<times> redis_cache" where
  "setResponse cache now nw key v mxAge =
     (case (client cache, JSON_stringify v) of
        (Some c, Some entry) \<Rightarrow>
          (case client_set c now nw key entry mxAge of
             (p, c') \<Rightarrow> contextualTimeout (cache\<lparr>client := Some c'\<rparr>) p ''setResponse'')
      | _ \<Rightarrow> (Inl TypeError, cache))"

definition setFlightMarker ::
  "redis_cache \<Rightarrow> nat \<Rightarrow> net \<Rightarrow> string \<Rightarrow> int \<Rightarrow> (error + string option) \<times> redis_cache" where
  "setFlightMarker cache now nw key mxAge =
     (case client cache of
        None \<Rightarrow> (Inl TypeError, cache)
      | Some c \<Rightarrow>
          (case client_set c now nw key ''true'' mxAge of
             (p, c') \<Rightarrow> contextualTimeout (cache\<lparr>client := Some c'\<rparr>) p ''setFlightMarker''))"

text \<open>
  \<^verbatim>\<open>const entry = await this.contextualTimeout(this.client.get(key), 'getResponse', { key })
  if (!entry) return
  return JSON.parse(entry)\<close>
\<close>

definition getResponse ::
  "redis_cache \<Rightarrow> nat \<Rightarrow> net \<Rightarrow> string \<Rightarrow> (error + json option) \<times> redis_cache" where
  "getResponse cache now nw key =
     (case client cache of
        None \<Rightarrow> (Inl TypeError, cache)
      | Some c \<Rightarrow>
          (case client_get c now nw key of
             (p, c') \<Rightarrow>
               (case contextualTimeout (cache\<lparr>client := Some c'\<rparr>) p ''getResponse'' of
                  (Inl e, cache') \<Rightarrow> (Inl e, cache')
                | (Inr None, cache') \<Rightarrow> (Inr None, cache')
                | (Inr (Some entry), cache') \<Rightarrow>
                    if entry = [] then (Inr None, cache')
                    else
                      (case JSON_parse entry of
                         Inl e \<Rightarrow> (Inl e, cache')
                       | Inr v \<Rightarrow> (Inr (Some v), cache')))))"

text \<open>
  \<^verbatim>\<open>const entry = await this.contextualTimeout(this.client.get(key), 'getFlightMarker', { key })
  if (!entry) return false
  return !!JSON.parse(entry)\<close>
\<close>

definition getFlightMarker ::
  "redis_cache \<Rightarrow> nat \<Rightarrow> net \<Rightarrow> string \<Rightarrow> (error + bool) \<times> redis_cache" where
  "getFlightMarker cache now nw key =
     (case client cache of
        None \<Rightarrow> (Inl TypeError, cache)
      | Some c \<Rightarrow>
          (case client_get c now nw key of
             (p, c') \<Rightarrow>
               (case contextualTimeout (cache\<lparr>client := Some c'\<rparr>) p ''getFlightMarker'' of
                  (Inl e, cache') \<Rightarrow> (Inl e, cache')
                | (Inr None, cache') \<Rightarrow> (Inr False, cache')
                | (Inr (Some entry), cache') \<Rightarrow>
                    if entry = [] then (Inr False, cache')
                    else
                      (case JSON_parse entry of
                         Inl e \<Rightarrow> (Inl e, cache')
                       | Inr v \<Rightarrow> (Inr (truthy v), cache')))))"

definition del :: "redis_cache \<Rightarrow> nat \<Rightarrow> net \<Rightarrow> string \<Rightarrow> (error + int) \<times> redis_cache" where
  "del cache now nw key =
     (case client cache of
        None \<Rightarrow> (Inl TypeError, cache)
      | Some c \<Rightarrow>
          (case client_del c now nw key of
             (p, c') \<Rightarrow> contextualTimeout (cache\<lparr>client := Some c'\<rparr>) p ''del''))"

definition ttl :: "redis_cache \<Rightarrow> nat \<Rightarrow> net \<Rightarrow> string \<Rightarrow> (error + int) \<times> redis_cache" where
  "ttl cache now nw key =
     (case client cache of
        None \<Rightarrow> (Inl TypeError, cache)
      | Some c \<Rightarrow>
          (case client_pTTL c now nw key of
             (p, c') \<Rightarrow> contextualTimeout (cache\<lparr>client := Some c'\<rparr>) p ''ttl''))"

text \<open>
  \<^verbatim>\<open>async close(): Promise<void> {
    if (!this.client) return
    try {
      // No further commands will be processed
      const res = await this.contextualTimeout(this.client.quit(), 'close', ...)
      logger.debug(...)
    } finally {
      this.client.removeAllListeners()
    }
  }\<close>
  The client stays in the cache after the call.
\<close>

definition close :: "redis_cache \<Rightarrow> net \<Rightarrow> (error + unit) \<times> redis_cache" where
  "close cache nw =
     (case client cache of
        None \<Rightarrow> (Inr (), cache)
      | Some c \<Rightarrow>
          (case client_quit c nw of
             (p, c') \<Rightarrow>
               (case contextualTimeout (cache\<lparr>client := Some c'\<rparr>) p ''close'' of
                  (res, cache') \<Rightarrow>
                    (map_sum id (\<lambda>r. ()) res, cache'\<lparr>client := Some (removeAllListeners c')\<rparr>))))"

text \<open>
  What the claims about the wrapper say of one call: \<open>counted_once\<close>, the counter with
  the given labels is one higher afterwards and every other counter is as before;
  \<open>wrapped\<close>, the call \<open>out\<close> of the method \<open>fnName\<close> on the promise \<open>p\<close> fails with the
  error of the timed promise and counts it (as a timeout when it is a \<open>TimeoutError\<close>, as
  a failure otherwise), and counts a success when the timed promise resolves.
\<close>

definition counted_once :: "redis_cache \<Rightarrow> redis_cache \<Rightarrow> cmd_status \<Rightarrow> string \<Rightarrow> bool" where
  "counted_once before after status fnName =
     (commands_sent after =
        (commands_sent before)((status, fnName) := Suc (commands_sent before (status, fnName))))"

definition wrapped :: "redis_cache \<Rightarrow> string \<Rightarrow> 'a promise \<Rightarrow> (error + 'b) \<times> redis_cache \<Rightarrow> bool" where
  "wrapped cache fnName p out =
     (case promise_timeout p (timeout (options cache)) of
        Inl e \<Rightarrow>
          fst out = Inl e \<and>
          counted_once cache (snd out) (if e = TimeoutError then TIMEOUT else FAIL) fnName
      | Inr v \<Rightarrow> counted_once cache (snd out) SUCCESS fnName)"

text \<open>Sample values for the closed statements below.\<close>

definition sample_options :: redis_options where
  "sample_options =
     \<lparr>host = ''127.0.0.1'', port = 6379, password = None, url = None,
      commandsQueueMaxLength = 100, maxAge = 90000, timeout = 500\<rparr>"

section \<open>The cache key (util.ts)\<close>

subsection \<open>SHA-1\<close>

text \<open>
  Modelled from the spec: the digest is Node's \<open>crypto\<close>, not the repository's. SHA-1 as
  FIPS 180 defines it, on bytes and 32-bit words that are integers, with the wrap-around
  written out (\<open>w32\<close>): rotation to the left by \<open>n\<close> bits is \<open>rotl (2 ^ n)\<close>.
\<close>

definition w32 :: "int \<Rightarrow> int" where
  "w32 x = x mod 4294967296"

definition rotl :: "int \<Rightarrow> int \<Rightarrow> int" where
  "rotl p x = w32 (x * p) + x div (4294967296 div p)"

fun be_bytes :: "nat \<Rightarrow> int \<Rightarrow> int list" where
  "be_bytes 0 v = []"
| "be_bytes (Suc k) v = be_bytes k (v div 256) @ [v mod 256]"

definition pad :: "int list \<Rightarrow> int list" where
  "pad msg =
     msg @ [128] @ replicate ((119 - length msg mod 64) mod 64) 0 @ be_bytes 8 (8 * int (length msg))"

fun words_of :: "int list \<Rightarrow> int list" where
  "words_of (a # b # c # d # rest) = (((a * 256 + b) * 256 + c) * 256 + d) # words_of rest"
| "words_of rest = []"

text \<open>The message schedule, newest word first.\<close>

fun expand :: "nat \<Rightarrow> int list \<Rightarrow> int list" where
  "expand 0 ws = ws"
| "expand (Suc n) ws = expand n (rotl 2 (ws ! 2 XOR ws ! 7 XOR ws ! 13 XOR ws ! 15) # ws)"

definition round_f :: "int \<Rightarrow> int \<Rightarrow> int \<Rightarrow> int \<Rightarrow> int" where
  "round_f t b c d =
     (if t < 20 then (b AND c) OR ((4294967295 - b) AND d)
      else if t < 40 then b XOR c XOR d
      else if t < 60 then (b AND c) OR (b AND d) OR (c AND d)
      else b XOR c XOR d)"

definition round_k :: "int \<Rightarrow> int" where
  "round_k t =
     (if t < 20 then 0x5A827999 else if t < 40 then 0x6ED9EBA1
      else if t < 60 then 0x8F1BBCDC else 0xCA62C1D6)"

type_synonym sha_state = "int \<times> int \<times> int \<times> int \<times> int"

fun rounds :: "int \<Rightarrow> int list \<Rightarrow> sha_state \<Rightarrow> sha_state" where
  "rounds t [] s = s"
| "rounds t (w # ws) (a, b, c, d, e) =
     rounds (t + 1) ws
       (w32 (rotl 32 a + round_f t b c d + e + round_k t + w), a, rotl 1073741824 b, c, d)"

fun compress :: "sha_state \<Rightarrow> int list \<Rightarrow> sha_state" where
  "compress (h0, h1, h2, h3, h4) block =
     (case rounds 0 (rev (expand 64 (rev block))) (h0, h1, h2, h3, h4) of
        (a, b, c, d, e) \<Rightarrow> (w32 (h0 + a), w32 (h1 + b), w32 (h2 + c), w32 (h3 + d), w32 (h4 + e)))"

function blocks :: "sha_state \<Rightarrow> int list \<Rightarrow> sha_state" where
  "blocks s ws = (if ws = [] then s else blocks (compress s (take 16 ws)) (drop 16 ws))"
  by pat_completeness auto
termination
  by (relation "measure (\<lambda>(s, ws). length ws)") auto

declare blocks.simps [simp del]

definition sha1 :: "int list \<Rightarrow> int list" where
  "sha1 msg =
     (case blocks (0x67452301, 0xEFCDAB89, 0x98BADCFE, 0x10325476, 0xC3D2E1F0) (words_of (pad msg)) of
        (a, b, c, d, e) \<Rightarrow> concat (map (be_bytes 4) [a, b, c, d, e]))"

subsection \<open>object-hash\<close>

text \<open>
  Modelled from the spec: \<open>objectHash\<close> is the object-hash package, not the repository's.
  The options are those that bear on JSON data when, as in \<open>getHashOpts\<close>, \<open>respectType\<close>
  and the options about sets and functions are false: the algorithm (\<open>sha1\<close>, or
  \<open>passthrough\<close>, which hands the text on undigested), the encoding of the result (\<open>hex\<close>
  or \<open>binary\<close>) and the predicate \<open>excludeKeys\<close>; every other option has the default of
  the package (object keys are sorted, array order is kept).

  The package writes a value as a text and digests the text: a scalar with a tag for
  its type, a string with its length, an array with its length and its elements in
  order, an object with the number of its keys and, key by key in sorted order and
  without the excluded keys (at every depth), the key, a colon, the value and a comma.
  It throws when the value is \<open>undefined\<close>.
\<close>

datatype algorithm = Sha1 | Passthrough

datatype encoding = Hex | Binary

record hash_options =
  algorithm :: algorithm
  encoding :: encoding
  excludeKeys :: "string \<Rightarrow> bool"

definition hex_byte :: "int \<Rightarrow> string" where
  "hex_byte b = [hex_digit (nat (b div 16)), hex_digit (nat (b mod 16))]"

definition encode :: "encoding \<Rightarrow> int list \<Rightarrow> string" where
  "encode enc bytes =
     (case enc of
        Hex \<Rightarrow> concat (map hex_byte bytes)
      | Binary \<Rightarrow> map (\<lambda>b. char_of (nat b)) bytes)"

definition digest :: "algorithm \<Rightarrow> string \<Rightarrow> int list" where
  "digest alg txt =
     (case alg of
        Sha1 \<Rightarrow> sha1 (map (\<lambda>c. int (of_char c)) txt)
      | Passthrough \<Rightarrow> map (\<lambda>c. int (of_char c)) txt)"

fun serialize :: "(string \<Rightarrow> bool) \<Rightarrow> json \<Rightarrow> string" where
  "serialize ex JUndefined = ''Undefined''"
| "serialize ex JNull = ''Null''"
| "serialize ex (JBool b) = ''bool:'' @ (if b then ''true'' else ''false'')"
| "serialize ex (JNum m e) = ''number:'' @ Number_toString m e"
| "serialize ex (JStr s) = ''string:'' @ decimal (length s) @ '':'' @ s"
| "serialize ex (JArr xs) = ''array:'' @ decimal (length xs) @ '':'' @ concat (map (serialize ex) xs)"
| "serialize ex (JObj kvs) =
     (let kept = filter (\<lambda>(k, t). \<not> ex k) (sort_key fst (map (\<lambda>(k, v). (k, serialize ex v)) kvs))
      in ''object:'' @ decimal (length kept) @ '':'' @
         concat (map (\<lambda>(k, t). ''string:'' @ decimal (length k) @ '':'' @ k @ '':'' @ t @ '','') kept))"

definition objectHash :: "json \<Rightarrow> hash_options \<Rightarrow> error + string" where
  "objectHash object opts =
     (if object = JUndefined then Inl (Error ''Object argument required.'')
      else Inr (encode (encoding opts) (digest (algorithm opts) (serialize (excludeKeys opts) object))))"

subsection \<open>The configuration of the key\<close>

record env =
  CACHE_KEY_IGNORED_PROPS :: "string option"
  CACHE_KEY_INCLUDED_PROPS :: "string option"

text \<open>\<^verbatim>\<open>s.split(',')\<close>: the pieces of \<open>s\<close> between commas; the empty string has one empty piece.\<close>

fun split_comma :: "string \<Rightarrow> string list" where
  "split_comma [] = [[]]"
| "split_comma (c # cs) =
     (if c = CHR '','' then [] # split_comma cs
      else (case split_comma cs of [] \<Rightarrow> [[c]] | p # ps \<Rightarrow> (c # p) # ps))"

text \<open>\<^verbatim>\<open>(process.env.X || '').split(',').filter((k) => k)\<close>\<close>

definition env_names :: "string option \<Rightarrow> string list" where
  "env_names var = filter (\<lambda>k. k \<noteq> []) (split_comma (case var of None \<Rightarrow> [] | Some s \<Rightarrow> s))"

definition excludableAdapterRequestProperties :: "env \<Rightarrow> string list" where
  "excludableAdapterRequestProperties ev =
     [''id'', ''maxAge'', ''meta'', ''debug'', ''rateLimitMaxAge'', ''metricsMeta'']
       @ env_names (CACHE_KEY_IGNORED_PROPS ev)"

definition includableAdapterRequestProperties :: "env \<Rightarrow> string list" where
  "includableAdapterRequestProperties ev = ''data'' # env_names (CACHE_KEY_INCLUDED_PROPS ev)"

definition excludableInternalAdapterRequestProperties :: "string list" where
  "excludableInternalAdapterRequestProperties = [''resultPath'', ''overrides'', ''tokenOverrides'', ''includes'']"

text \<open>
  The names every object inherits from \<open>Object.prototype\<close>: a lookup of one of them in
  the table of excluded names finds the inherited property, which is truthy.
\<close>

definition Object_prototype_names :: "string list" where
  "Object_prototype_names =
     [''constructor'', ''__proto__'', ''hasOwnProperty'', ''isPrototypeOf'', ''propertyIsEnumerable'',
      ''toLocaleString'', ''toString'', ''valueOf'', ''__defineGetter__'', ''__defineSetter__'',
      ''__lookupGetter__'', ''__lookupSetter__'']"

text \<open>
  \<^verbatim>\<open>export const getHashOpts = () => ({
    algorithm: 'sha1', encoding: 'hex',
    unorderedSets: false, respectType: false,
    respectFunctionProperties: false, respectFunctionNames: false,
    excludeKeys: (props: string) => excludableAdapterRequestProperties[props],
  })\<close>
\<close>

definition getHashOpts :: "env \<Rightarrow> hash_options" where
  "getHashOpts ev =
     \<lparr>algorithm = Sha1, encoding = Hex,
      excludeKeys = (\<lambda>props. props \<in> set (excludableAdapterRequestProperties ev)
                       \<or> props \<in> set Object_prototype_names)\<rparr>"

subsection \<open>pick and omit\<close>

text \<open>
  Modelled from the spec: \<open>pick\<close> and \<open>omit\<close> are lodash's, not the repository's. The
  names are plain property names (with a dot or a bracket in a name lodash would read a
  path). \<open>pick\<close> makes an object of the named properties that the value has, in the order
  of the names; of a value that is not an object it makes the empty object. \<open>omit\<close> is
  only used with the paths \<open>data.<name>\<close>: it removes the named properties from the
  property \<open>data\<close> when that is an object.
\<close>

fun pick_props :: "(string \<times> json) list \<Rightarrow> string list \<Rightarrow> (string \<times> json) list \<Rightarrow> (string \<times> json) list" where
  "pick_props kvs [] acc = acc"
| "pick_props kvs (p # ps) acc =
     pick_props kvs ps (case map_of kvs p of None \<Rightarrow> acc | Some v \<Rightarrow> put p v acc)"

fun pick :: "json \<Rightarrow> string list \<Rightarrow> json" where
  "pick (JObj kvs) paths = JObj (pick_props kvs paths [])"
| "pick v paths = JObj []"

fun unset :: "string list \<Rightarrow> json \<Rightarrow> json" where
  "unset names (JObj kvs) = JObj (filter (\<lambda>(k, v). k \<notin> set names) kvs)"
| "unset names v = v"

fun omit_data :: "json \<Rightarrow> string list \<Rightarrow> json" where
  "omit_data (JObj kvs) names = JObj (map (\<lambda>(k, v). (k, if k = ''data'' then unset names v else v)) kvs)"
| "omit_data v names = JObj []"

text \<open>
  \<^verbatim>\<open>export const getKeyData = (data: AdapterRequest) =>
    omit(
      pick(data, includableAdapterRequestProperties),
      excludableInternalAdapterRequestProperties.map((property) => `data.${property}`),
    )\<close>
\<close>

definition getKeyData :: "env \<Rightarrow> json \<Rightarrow> json" where
  "getKeyData ev data =
     omit_data (pick data (includableAdapterRequestProperties ev)) excludableInternalAdapterRequestProperties"

text \<open>
  \<^verbatim>\<open>export const hash = (data, hashOptions, mode: HashMode = 'include'): string => {
    return mode === 'include' || !data
      ? objectHash(getKeyData(data), hashOptions)
      : objectHash(data, getHashOpts())
  }\<close>
  The two environment variables are read when the module is loaded; here they are an
  argument. A mode that is not given is \<open>None\<close>.
\<close>

datatype HashMode = Include | Exclude

definition hash :: "env \<Rightarrow> json \<Rightarrow> hash_options \<Rightarrow> HashMode option \<Rightarrow> error + string" where
  "hash ev data hashOptions mode =
     (if (case mode of None \<Rightarrow> Include | Some m \<Rightarrow> m) = Include \<or> \<not> truthy data
      then objectHash (getKeyData ev data) hashOptions
      else objectHash data (getHashOpts ev))"

definition default_env :: env where
  "default_env = \<lparr>CACHE_KEY_IGNORED_PROPS = None, CACHE_KEY_INCLUDED_PROPS = None\<rparr>"

subsection \<open>Payloads that differ in the order of fields, and changes of one field\<close>

text \<open>
  \<open>field_perm a b\<close>: \<open>b\<close> is \<open>a\<close> with the fields of its objects, at every depth, in
  another order. Two objects have the same keys, each once, and under the same key
  values that are so related; two arrays have the same length and at the same index
  values that are so related; any other two values are the same.
\<close>

fun field_perm :: "json \<Rightarrow> json \<Rightarrow> bool" where
  "field_perm (JObj kvs) (JObj kvs') =
     (distinct (map fst kvs) \<and> distinct (map fst kvs') \<and> set (map fst kvs) = set (map fst kvs') \<and>
      (\<forall>(k, v) \<in> set kvs. \<forall>(k', v') \<in> set kvs'. k = k' \<longrightarrow> field_perm v v'))"
| "field_perm (JArr xs) (JArr ys) = list_all2 field_perm xs ys"
| "field_perm v w = (v = w)"

text \<open>
  \<open>set_field f v p\<close> is \<open>p\<close> after \<open>p[f] = v\<close> and \<open>set_data_field f v p\<close> is \<open>p\<close> after
  \<open>p.data[f] = v\<close>, for objects; any other value is left as it is.
\<close>

fun set_field :: "string \<Rightarrow> json \<Rightarrow> json \<Rightarrow> json" where
  "set_field f v (JObj kvs) = JObj (put f v kvs)"
| "set_field f v w = w"

fun set_data_field :: "string \<Rightarrow> json \<Rightarrow> json \<Rightarrow> json" where
  "set_data_field f v (JObj kvs) =
     (case map_of kvs ''data'' of
        Some d \<Rightarrow> JObj (put ''data'' (set_field f v d) kvs)
      | None \<Rightarrow> JObj kvs)"
| "set_data_field f v w = w"

section \<open>Verification\<close>

subsection \<open>The coalescing waiter\<close>

text \<open>
  With a counter \<open>n\<close> that is a natural number, \<open>self\<close> returns, and returns what
  the specification's loop returns from attempt \<open>retries - n + 1\<close> on with budget \<open>n\<close>.
\<close>

lemma self_awaitProduction:
  "self get isInFlight retries interval (int n) =
     Some (awaitProduction get isInFlight interval n (retries - int n + 1))"
proof (induction n)
  case 0
  show ?case by (subst self.simps) simp
next
  case (Suc n)
  have next_attempt: "retries - int (Suc n) + 1 + 1 = retries - int n + 1" by simp
  show ?case
    by (subst self.simps)
      (simp add: Let_def next_attempt Suc split: sum.splits option.splits bool.splits)
qed

lemma getWithCoalescing_awaitProduction:
  assumes "0 \<le> R"
  shows "getWithCoalescing get isInFlight R interval =
    Some (awaitProduction get isInFlight interval (nat R) 1)"
  using assms self_awaitProduction [of get isInFlight R interval "nat R"]
  by (simp add: getWithCoalescing_def)

lemma awaitProduction_gets:
  "length (filter is_get (snd (awaitProduction get isInFlight interval n k))) \<le> n"
  by (induction n arbitrary: k) (auto simp: Let_def split: sum.splits option.splits bool.splits)

lemma awaitProduction_inflights:
  "length (filter is_inflight (snd (awaitProduction get isInFlight interval n k))) \<le> n"
  by (induction n arbitrary: k) (auto simp: Let_def split: sum.splits option.splits bool.splits)

lemma awaitProduction_sleeps:
  "length (filter is_sleep (snd (awaitProduction get isInFlight interval n k))) \<le> n"
  by (induction n arbitrary: k) (auto simp: Let_def split: sum.splits option.splits bool.splits)

lemma awaitProduction_total_sleep:
  assumes "\<And>k. interval k \<le> I"
  shows "total_sleep (snd (awaitProduction get isInFlight interval n k)) \<le> n * I"
proof (induction n arbitrary: k)
  case 0
  show ?case by (simp add: total_sleep_def)
next
  case (Suc n)
  have "interval k + total_sleep (snd (awaitProduction get isInFlight interval n (k + 1))) \<le> I + n * I"
    using assms [of k] Suc [of "k + 1"] by (rule add_mono)
  then show ?case
    using Suc [of "k + 1"]
    by (auto simp: Let_def total_sleep_def split: sum.splits option.splits bool.splits)
qed

text \<open>
  C1. For every retry budget \<open>R \<ge> 0\<close> and all results of \<open>get\<close> and \<open>isInFlight\<close>,
  \<open>getWithCoalescing\<close> returns, and its result and the calls it makes are those of the
  specified loop: attempt \<open>k\<close> (from 1, while budget remains) calls \<open>get k\<close> and returns
  the entry if there is one, else calls \<open>isInFlight k\<close> and returns absent if that is
  false, else sleeps \<open>interval k\<close> and goes on to attempt \<open>k + 1\<close>; with the budget
  used up (at once when \<open>R = 0\<close>, with no call at all) it returns absent.
\<close>

theorem getWithCoalescing_is_waiter_loop:
  "(0 \<le> R \<longrightarrow>
      getWithCoalescing get isInFlight R interval =
        Some (awaitProduction get isInFlight interval (nat R) 1))
   \<and> getWithCoalescing get isInFlight 0 interval = Some (Inr None, [])"
  using getWithCoalescing_awaitProduction [of R get isInFlight interval]
    getWithCoalescing_awaitProduction [of 0 get isInFlight interval]
  by simp

theorem getWithCoalescing_is_waiter_loop_witness:
  "getWithCoalescing (\<lambda>k. if k = 3 then Inr (Some (42::nat)) else Inr None) (\<lambda>k. Inr True) 5 (\<lambda>k. 100)
     = Some (Inr (Some 42),
         [CallGet 1, CallIsInFlight 1, Sleep 100, CallGet 2, CallIsInFlight 2, Sleep 100, CallGet 3])
   \<and> getWithCoalescing (\<lambda>k. Inr (None :: nat option)) (\<lambda>k. Inr (k < 2)) 5 (\<lambda>k. 100)
     = Some (Inr None, [CallGet 1, CallIsInFlight 1, Sleep 100, CallGet 2, CallIsInFlight 2])
   \<and> getWithCoalescing (\<lambda>k. Inr (None :: nat option)) (\<lambda>k. Inr True) 2 (\<lambda>k. 100)
     = Some (Inr None, [CallGet 1, CallIsInFlight 1, Sleep 100, CallGet 2, CallIsInFlight 2, Sleep 100])"
  using getWithCoalescing_is_waiter_loop
      [of 5 "\<lambda>k. if k = 3 then Inr (Some (42::nat)) else Inr None" "\<lambda>k. Inr True" "\<lambda>k. 100"]
    getWithCoalescing_is_waiter_loop
      [of 5 "\<lambda>k. Inr (None :: nat option)" "\<lambda>k. Inr (k < 2)" "\<lambda>k. 100"]
    getWithCoalescing_is_waiter_loop
      [of 2 "\<lambda>k. Inr (None :: nat option)" "\<lambda>k. Inr True" "\<lambda>k. 100"]
  by (simp add: eval_nat_numeral)

text \<open>
  C6. For every retry budget \<open>R \<ge> 0\<close> the waiter returns, after at most \<open>R\<close> calls of
  \<open>get\<close>, at most \<open>R\<close> calls of \<open>isInFlight\<close> and at most \<open>R\<close> sleeps; when no
  interval is longer than \<open>I\<close>, it has slept at most \<open>R * I\<close> milliseconds in all.
\<close>

theorem getWithCoalescing_bounded:
  assumes "0 \<le> R"
  shows "\<exists>res tr. getWithCoalescing get isInFlight R interval = Some (res, tr)
    \<and> length (filter is_get tr) \<le> nat R
    \<and> length (filter is_inflight tr) \<le> nat R
    \<and> length (filter is_sleep tr) \<le> nat R
    \<and> ((\<forall>k. interval k \<le> I) \<longrightarrow> total_sleep tr \<le> nat R * I)"
proof -
  let ?rt = "awaitProduction get isInFlight interval (nat R) 1"
  have "getWithCoalescing get isInFlight R interval = Some (fst ?rt, snd ?rt)"
    using getWithCoalescing_awaitProduction [OF assms] by simp
  moreover have "length (filter is_get (snd ?rt)) \<le> nat R"
    by (rule awaitProduction_gets)
  moreover have "length (filter is_inflight (snd ?rt)) \<le> nat R"
    by (rule awaitProduction_inflights)
  moreover have "length (filter is_sleep (snd ?rt)) \<le> nat R"
    by (rule awaitProduction_sleeps)
  moreover have "(\<forall>k. interval k \<le> I) \<longrightarrow> total_sleep (snd ?rt) \<le> nat R * I"
    using awaitProduction_total_sleep [of interval I] by blast
  ultimately show ?thesis by blast
qed

theorem getWithCoalescing_bounded_witness:
  "\<exists>res tr. getWithCoalescing (\<lambda>k. Inr (None :: nat option)) (\<lambda>k. Inr True) 3 (\<lambda>k. 100) = Some (res, tr)
    \<and> length (filter is_get tr) \<le> 3
    \<and> length (filter is_inflight tr) \<le> 3
    \<and> length (filter is_sleep tr) \<le> 3
    \<and> total_sleep tr \<le> 300"
  using getWithCoalescing_bounded
    [of 3 "\<lambda>k. Inr (None :: nat option)" "\<lambda>k. Inr True" "\<lambda>k. 100" 100]
  by simp

subsection \<open>Backoff\<close>

text \<open>
  C4. For every retry count \<open>n \<ge> 1\<close>, base interval, maximum and coefficient,
  \<open>exponentialBackOffMs\<close> is \<open>min max (base * coefficient ^ (n - 1))\<close>; with base 100,
  maximum 1000 and coefficient 2 the values for \<open>n = 1, ..., 5\<close> are 100, 200, 400, 800
  and 1000.
\<close>

theorem exponentialBackOffMs_formula:
  "(1 \<le> n \<longrightarrow>
      exponentialBackOffMs (Some n) (Some base) (Some mx) (Some c) = min mx (base * c ^ nat (n - 1)))
   \<and> map (\<lambda>n. exponentialBackOffMs (Some n) (Some 100) (Some 1000) (Some 2)) [1, 2, 3, 4, 5]
      = [100, 200, 400, 800, 1000]"
  by (simp add: exponentialBackOffMs_def power_int_def)

theorem exponentialBackOffMs_formula_witness:
  "exponentialBackOffMs (Some 4) (Some 100) (Some 1000) (Some 3) = 1000
   \<and> exponentialBackOffMs (Some 2) (Some 7) (Some 1000) (Some 3) = 21"
  using exponentialBackOffMs_formula [of 4 100 1000 3] exponentialBackOffMs_formula [of 2 7 1000 3]
  by simp

subsection \<open>Redaction\<close>

lemma replace_dot_plus_single_line:
  assumes "p \<noteq> []" and "\<forall>c \<in> set p. \<not> isLineTerminator c"
  shows "replace_dot_plus p = ''*****''"
proof (cases p)
  case Nil
  with assms show ?thesis by simp
next
  case (Cons c cs)
  with assms have rest: "dropWhile (\<lambda>d. \<not> isLineTerminator d) cs = []" by simp
  from Cons assms have "\<not> isLineTerminator c" by simp
  then show ?thesis unfolding Cons by (simp add: rest)
qed

text \<open>
  A password without a line terminator is masked whole, and options with neither a
  password nor a URL come back as they are.
\<close>

lemma redactOptions_single_line_password:
  assumes "password opts = Some p" and "p \<noteq> []" and "\<forall>c \<in> set p. \<not> isLineTerminator c"
  shows "password (redactOptions opts) = Some ''*****''"
  using assms replace_dot_plus_single_line [of p]
  by (simp add: redactOptions_def Let_def split: option.splits)

lemma redactOptions_nothing_to_hide:
  assumes "password opts = None" and "url opts = None"
  shows "redactOptions opts = opts"
  using assms by (simp add: redactOptions_def)

text \<open>
  C8 (the code departs from the claim). A password with a line terminator in it is not
  replaced by the mask: each line of it is, and the line terminators stay; a password of
  line terminators only is returned as it is.
\<close>

theorem redactOptions_multi_line_password:
  "password (redactOptions
      \<lparr>host = ''127.0.0.1'', port = 6379, password = Some (''ab'' @ [CHR 0x0A] @ ''cd''), url = None,
       commandsQueueMaxLength = 100, maxAge = 90000, timeout = 500\<rparr>)
     = Some (''*****'' @ [CHR 0x0A] @ ''*****'')
   \<and> password (redactOptions
      \<lparr>host = ''127.0.0.1'', port = 6379, password = Some [CHR 0x0A], url = None,
       commandsQueueMaxLength = 100, maxAge = 90000, timeout = 500\<rparr>)
     = Some [CHR 0x0A]"
  by (simp add: redactOptions_def isLineTerminator_def)

subsection \<open>The timeout wrapper of the Redis cache\<close>

lemma counted_once_inc: "counted_once cache (inc st fn (cache\<lparr>client := x\<rparr>)) st fn"
  by (simp add: counted_once_def inc_def)

lemma counted_once_client_update:
  "counted_once cache (cache'\<lparr>client := x\<rparr>) st fn = counted_once cache cache' st fn"
  by (simp add: counted_once_def)

lemma wrapped_contextualTimeout:
  "wrapped cache fn p (contextualTimeout (cache\<lparr>client := x\<rparr>) p fn)"
  by (simp add: wrapped_def contextualTimeout_def counted_once_inc split: sum.splits)

lemma fst_contextualTimeout:
  "fst (contextualTimeout cache p fn) = promise_timeout p (timeout (options cache))"
  by (simp add: contextualTimeout_def split: sum.splits)

text \<open>
  A method that works on the result of the wrapper, without touching the counters and
  passing its errors on, is wrapped as well.
\<close>

lemma wrapped_post:
  assumes "wrapped cache fn p out" and "snd out' = snd out"
    and "\<And>e. fst out = Inl e \<Longrightarrow> fst out' = Inl e"
  shows "wrapped cache fn p out'"
  using assms by (auto simp: wrapped_def split: sum.splits)

lemma wrapped_setResponse:
  assumes "client cache = Some c" and "JSON_stringify v = Some entry"
  shows "wrapped cache ''setResponse'' (fst (client_set c now nw key entry mxAge))
           (setResponse cache now nw key v mxAge)"
  using assms
  by (simp add: wrapped_contextualTimeout setResponse_def split: prod.splits)

lemma wrapped_setFlightMarker:
  assumes "client cache = Some c"
  shows "wrapped cache ''setFlightMarker'' (fst (client_set c now nw key ''true'' mxAge))
           (setFlightMarker cache now nw key mxAge)"
  using assms
  by (simp add: wrapped_contextualTimeout setFlightMarker_def split: prod.splits)

lemma wrapped_getResponse:
  assumes "client cache = Some c"
  shows "wrapped cache ''getResponse'' (fst (client_get c now nw key)) (getResponse cache now nw key)"
proof -
  obtain p c' where pc: "client_get c now nw key = (p, c')" by (cases "client_get c now nw key")
  let ?out = "contextualTimeout (cache\<lparr>client := Some c'\<rparr>) p ''getResponse''"
  have "wrapped cache ''getResponse'' p ?out" by (rule wrapped_contextualTimeout)
  moreover have "snd (getResponse cache now nw key) = snd ?out"
    using assms pc
    by (cases ?out) (auto simp: getResponse_def split: prod.splits sum.splits option.splits)
  moreover have "\<And>e. fst ?out = Inl e \<Longrightarrow> fst (getResponse cache now nw key) = Inl e"
    using assms pc
    by (cases ?out) (auto simp: getResponse_def split: prod.splits sum.splits option.splits)
  ultimately show ?thesis using pc by (simp add: wrapped_post)
qed

lemma wrapped_getFlightMarker:
  assumes "client cache = Some c"
  shows "wrapped cache ''getFlightMarker'' (fst (client_get c now nw key))
           (getFlightMarker cache now nw key)"
proof -
  obtain p c' where pc: "client_get c now nw key = (p, c')" by (cases "client_get c now nw key")
  let ?out = "contextualTimeout (cache\<lparr>client := Some c'\<rparr>) p ''getFlightMarker''"
  have "wrapped cache ''getFlightMarker'' p ?out" by (rule wrapped_contextualTimeout)
  moreover have "snd (getFlightMarker cache now nw key) = snd ?out"
    using assms pc
    by (cases ?out) (auto simp: getFlightMarker_def split: prod.splits sum.splits option.splits)
  moreover have "\<And>e. fst ?out = Inl e \<Longrightarrow> fst (getFlightMarker cache now nw key) = Inl e"
    using assms pc
    by (cases ?out) (auto simp: getFlightMarker_def split: prod.splits sum.splits option.splits)
  ultimately show ?thesis using pc by (simp add: wrapped_post)
qed

lemma wrapped_del:
  assumes "client cache = Some c"
  shows "wrapped cache ''del'' (fst (client_del c now nw key)) (del cache now nw key)"
  using assms
  by (simp add: wrapped_contextualTimeout del_def split: prod.splits)

lemma wrapped_ttl:
  assumes "client cache = Some c"
  shows "wrapped cache ''ttl'' (fst (client_pTTL c now nw key)) (ttl cache now nw key)"
  using assms
  by (simp add: wrapped_contextualTimeout ttl_def split: prod.splits)

lemma wrapped_close:
  assumes "client cache = Some c"
  shows "wrapped cache ''close'' (fst (client_quit c nw)) (close cache nw)"
proof -
  obtain p c' where pc: "client_quit c nw = (p, c')" by (cases "client_quit c nw")
  let ?out = "contextualTimeout (cache\<lparr>client := Some c'\<rparr>) p ''close''"
  have w: "wrapped cache ''close'' p ?out" by (rule wrapped_contextualTimeout)
  have out: "close cache nw =
      (map_sum id (\<lambda>r. ()) (fst ?out), (snd ?out)\<lparr>client := Some (removeAllListeners c')\<rparr>)"
    using assms pc by (simp add: close_def split: prod.splits)
  show ?thesis
    using w unfolding out pc
    by (auto simp: wrapped_def counted_once_client_update split: sum.splits)
qed

lemma late_is_timeout:
  "p = Pending \<or> (\<exists>t r. p = Settles t r \<and> ms < t) \<Longrightarrow> promise_timeout p ms = Inl TimeoutError"
  by (auto simp: promise_timeout_def)

text \<open>
  C5. Each of the seven methods of the cache that sends a command passes the promise of
  the client through the wrapper with the timeout of the options and its own name: when
  the timed promise fails, the method fails with that error and the counter labelled
  with the name and \<open>TIMEOUT\<close> (for a \<open>TimeoutError\<close>) or \<open>FAIL\<close> (for any other error,
  which is the client's own) goes up by one; when it resolves, the counter labelled
  \<open>SUCCESS\<close> goes up by one; no other counter changes. A promise that is still pending
  after the timeout makes the timed promise fail with a \<open>TimeoutError\<close>.
\<close>

theorem store_calls_are_wrapped:
  assumes "client cache = Some c"
  shows "(\<forall>entry. JSON_stringify v = Some entry \<longrightarrow>
            wrapped cache ''setResponse'' (fst (client_set c now nw key entry mxAge))
              (setResponse cache now nw key v mxAge))
    \<and> wrapped cache ''setFlightMarker'' (fst (client_set c now nw key ''true'' mxAge))
          (setFlightMarker cache now nw key mxAge)
    \<and> wrapped cache ''getResponse'' (fst (client_get c now nw key)) (getResponse cache now nw key)
    \<and> wrapped cache ''getFlightMarker'' (fst (client_get c now nw key))
          (getFlightMarker cache now nw key)
    \<and> wrapped cache ''del'' (fst (client_del c now nw key)) (del cache now nw key)
    \<and> wrapped cache ''ttl'' (fst (client_pTTL c now nw key)) (ttl cache now nw key)
    \<and> wrapped cache ''close'' (fst (client_quit c nw)) (close cache nw)
    \<and> (\<forall>p. p = Pending \<or> (\<exists>t r. p = Settles t r \<and> timeout (options cache) < t) \<longrightarrow>
          promise_timeout p (timeout (options cache)) = Inl TimeoutError)"
proof -
  have setR: "\<forall>entry. JSON_stringify v = Some entry \<longrightarrow>
            wrapped cache ''setResponse'' (fst (client_set c now nw key entry mxAge))
              (setResponse cache now nw key v mxAge)"
    by (intro allI impI) (rule wrapped_setResponse [OF assms])
  have late: "\<forall>p. p = Pending \<or> (\<exists>t r. p = Settles t r \<and> timeout (options cache) < t) \<longrightarrow>
          promise_timeout p (timeout (options cache)) = Inl TimeoutError"
    by (intro allI impI) (rule late_is_timeout)
  show ?thesis
    by (intro conjI setR late wrapped_setFlightMarker [OF assms] wrapped_getResponse [OF assms]
      wrapped_getFlightMarker [OF assms] wrapped_del [OF assms] wrapped_ttl [OF assms]
      wrapped_close [OF assms])
qed

theorem store_calls_are_wrapped_witness:
  "fst (del (new_RedisCache sample_options Map.empty) 0 Silent ''k'') = Inl TimeoutError
   \<and> commands_sent (snd (del (new_RedisCache sample_options Map.empty) 0 Silent ''k'')) (TIMEOUT, ''del'') = 1
   \<and> commands_sent (snd (ttl (new_RedisCache sample_options Map.empty) 0 (Reply 3) ''k'')) (SUCCESS, ''ttl'') = 1"
proof -
  let ?c = "\<lparr>isOpen = True, entries = Map.empty,
        listeners = [''error'', ''end'', ''connect'', ''ready'', ''reconnecting'']\<rparr>"
  let ?cache = "new_RedisCache sample_options Map.empty"
  have c: "client ?cache = Some ?c" by (simp add: new_RedisCache_def)
  have t: "timeout (options ?cache) = 500" by (simp add: new_RedisCache_def sample_options_def)
  have z: "commands_sent ?cache = (\<lambda>l. 0)" by (simp add: new_RedisCache_def)
  note w1 = store_calls_are_wrapped [OF c, of JNull 0 Silent "''k''" 1]
  note w2 = store_calls_are_wrapped [OF c, of JNull 0 "Reply 3" "''k''" 1]
  have "wrapped ?cache ''del'' (fst (client_del ?c 0 Silent ''k'')) (del ?cache 0 Silent ''k'')"
    using w1 by (elim conjE)
  moreover have "promise_timeout (fst (client_del ?c 0 Silent ''k'')) 500 = Inl TimeoutError"
    by (simp add: client_del_def command_def promise_timeout_def)
  ultimately have d: "fst (del ?cache 0 Silent ''k'') = Inl TimeoutError
      \<and> counted_once ?cache (snd (del ?cache 0 Silent ''k'')) TIMEOUT ''del''"
    by (simp add: wrapped_def t)
  have "wrapped ?cache ''ttl'' (fst (client_pTTL ?c 0 (Reply 3) ''k'')) (ttl ?cache 0 (Reply 3) ''k'')"
    using w2 by (elim conjE)
  moreover have "promise_timeout (fst (client_pTTL ?c 0 (Reply 3) ''k'')) 500 = Inr (- 2)"
    by (simp add: client_pTTL_def command_def promise_timeout_def)
  ultimately have "counted_once ?cache (snd (ttl ?cache 0 (Reply 3) ''k'')) SUCCESS ''ttl''"
    by (simp add: wrapped_def t)
  with d show ?thesis
    by (simp add: counted_once_def z)
qed

subsection \<open>Closing the cache\<close>

text \<open>
  Whatever becomes of \<open>quit\<close>, a \<open>close\<close> on a cache with a client leaves the client
  closed and without listeners, and the stored entries as they were; a \<open>close\<close> on a
  closed client fails.
\<close>

lemma close_releases_listeners:
  assumes "client cache = Some c"
  shows "\<exists>c'. client (snd (close cache nw)) = Some c' \<and> listeners c' = [] \<and> \<not> isOpen c'
     \<and> entries c' = entries c"
  using assms
  by (auto simp: close_def client_quit_def command_def removeAllListeners_def contextualTimeout_def
      inc_def split: prod.splits sum.splits net.splits)

lemma close_closed_client:
  assumes "client cache = Some c" and "\<not> isOpen c"
  shows "fst (close cache nw) = Inl ClientClosedError
    \<and> counted_once cache (snd (close cache nw)) FAIL ''close''"
  using assms
  by (auto simp: close_def client_quit_def command_def removeAllListeners_def contextualTimeout_def
      inc_def counted_once_def promise_timeout_def split: prod.splits sum.splits net.splits)

lemma close_without_client: "client cache = None \<Longrightarrow> close cache nw = (Inr (), cache)"
  by (simp add: close_def)

text \<open>
  C9 (the code departs from the claim). \<open>close\<close> tests \<open>this.client\<close>, but nothing ever
  clears it: after a \<open>close\<close> that completed, a second \<open>close\<close> sends \<open>quit\<close> to the closed
  client again, fails with its \<open>ClientClosedError\<close> and is counted as a failed \<open>close\<close>
  command.
\<close>

theorem close_twice_raises:
  "fst (close (new_RedisCache sample_options Map.empty) (Reply 1)) = Inr ()
   \<and> fst (close (snd (close (new_RedisCache sample_options Map.empty) (Reply 1))) (Reply 1))
       = Inl ClientClosedError
   \<and> commands_sent
        (snd (close (snd (close (new_RedisCache sample_options Map.empty) (Reply 1))) (Reply 1)))
        (FAIL, ''close'') = 1"
  by (simp add: close_def new_RedisCache_def sample_options_def client_quit_def command_def
      contextualTimeout_def promise_timeout_def inc_def removeAllListeners_def)

lemma JSON_parse_error: "JSON_parse s = Inl e \<Longrightarrow> e = SyntaxError"
  by (auto simp: JSON_parse_def split: option.splits prod.splits mode.splits)

lemma getFlightMarker_answered:
  assumes "client cache = Some c" and "isOpen c" and "t \<le> timeout (options cache)"
  shows "fst (getFlightMarker cache now (Reply t) key) =
     (case stored c now key of
        None \<Rightarrow> Inr False
      | Some s \<Rightarrow>
          if s = [] then Inr False
          else (case JSON_parse s of Inl e \<Rightarrow> Inl e | Inr v \<Rightarrow> Inr (truthy v)))"
  using assms
  by (simp add: getFlightMarker_def client_get_def command_def contextualTimeout_def
      promise_timeout_def split: option.splits sum.splits)

lemma setFlightMarker_success:
  assumes "fst (setFlightMarker cache t0 nw key mx) = Inr r"
  shows "\<exists>c c'. client cache = Some c \<and> isOpen c
      \<and> client (snd (setFlightMarker cache t0 nw key mx)) = Some c' \<and> isOpen c'
      \<and> entries c' key = Some (''true'', t0 + nat mx)
      \<and> options (snd (setFlightMarker cache t0 nw key mx)) = options cache"
  using assms
  by (auto simp: setFlightMarker_def client_set_def command_def contextualTimeout_def
      promise_timeout_def inc_def split: option.splits sum.splits net.splits if_splits)

lemma parse_true: "JSON_parse ''true'' = Inr (JBool True)"
  by (simp add: JSON_parse_def isWhitespace_def punctuation_def isNumberChar_def isDigit_def
      isLetter_def lex_literal_def)

text \<open>
  C10 (as amended). When the read is answered within the timeout: an absent key gives
  \<open>false\<close>; the string \<open>true\<close> gives \<open>true\<close>, so a successful \<open>setFlightMarker\<close> followed
  before expiry by \<open>getFlightMarker\<close> gives \<open>true\<close>; a non-empty string that is JSON gives
  the truthiness of its value; a non-empty string that is not JSON makes the call fail
  with a \<open>SyntaxError\<close>; and the empty string, though not JSON, gives \<open>false\<close>.
\<close>

theorem getFlightMarker_reads_marker:
  assumes "client cache = Some c" and "isOpen c" and "t \<le> timeout (options cache)"
  shows "(stored c now k = None \<longrightarrow> fst (getFlightMarker cache now (Reply t) k) = Inr False)
    \<and> (stored c now k = Some ''true'' \<longrightarrow> fst (getFlightMarker cache now (Reply t) k) = Inr True)
    \<and> (\<forall>r t0 t1 mx. fst (setFlightMarker cache t0 (Reply t1) k mx) = Inr r \<and> now < t0 + nat mx \<longrightarrow>
          fst (getFlightMarker (snd (setFlightMarker cache t0 (Reply t1) k mx)) now (Reply t) k)
            = Inr True)
    \<and> (\<forall>s v. stored c now k = Some s \<and> s \<noteq> [] \<and> JSON_parse s = Inr v \<longrightarrow>
          fst (getFlightMarker cache now (Reply t) k) = Inr (truthy v))
    \<and> (\<forall>s e. stored c now k = Some s \<and> s \<noteq> [] \<and> JSON_parse s = Inl e \<longrightarrow>
          fst (getFlightMarker cache now (Reply t) k) = Inl SyntaxError)
    \<and> (stored c now k = Some [] \<longrightarrow> fst (getFlightMarker cache now (Reply t) k) = Inr False)"
proof (intro conjI allI impI)
  note answered = getFlightMarker_answered [OF assms, of now k]
  show "fst (getFlightMarker cache now (Reply t) k) = Inr False" if "stored c now k = None"
    using that answered by simp
  show "fst (getFlightMarker cache now (Reply t) k) = Inr True" if "stored c now k = Some ''true''"
    using that answered by (simp add: parse_true)
  show "fst (getFlightMarker cache now (Reply t) k) = Inr (truthy v)"
    if "stored c now k = Some s \<and> s \<noteq> [] \<and> JSON_parse s = Inr v" for s v
    using that answered by simp
  show "fst (getFlightMarker cache now (Reply t) k) = Inl SyntaxError"
    if "stored c now k = Some s \<and> s \<noteq> [] \<and> JSON_parse s = Inl e" for s e
    using that answered JSON_parse_error [of s e] by simp
  show "fst (getFlightMarker cache now (Reply t) k) = Inr False" if "stored c now k = Some []"
    using that answered by simp
  show "fst (getFlightMarker (snd (setFlightMarker cache t0 (Reply t1) k mx)) now (Reply t) k) = Inr True"
    if set: "fst (setFlightMarker cache t0 (Reply t1) k mx) = Inr r \<and> now < t0 + nat mx"
    for r t0 t1 mx
  proof -
    let ?cache' = "snd (setFlightMarker cache t0 (Reply t1) k mx)"
    from setFlightMarker_success [of cache t0 "Reply t1" k mx r] set
    obtain c' where c': "client ?cache' = Some c'" "isOpen c'"
        "entries c' k = Some (''true'', t0 + nat mx)" "options ?cache' = options cache"
      by blast
    have "stored c' now k = Some ''true''"
      using c'(3) set by (simp add: stored_def)
    moreover have "t \<le> timeout (options ?cache')"
      using assms(3) c'(4) by simp
    ultimately show ?thesis
      using getFlightMarker_answered [OF c'(1) c'(2), of t now k] by (simp add: parse_true)
  qed
qed

text \<open>
  C10 as stated fails: the empty string is not valid JSON, and \<open>getFlightMarker\<close> returns
  \<open>false\<close> for it.
\<close>

theorem getFlightMarker_empty_string_counterexample:
  "JSON_parse [] = Inl SyntaxError
   \<and> fst (getFlightMarker (new_RedisCache sample_options [''flight'' \<mapsto> ([], 1000)]) 0 (Reply 1) ''flight'')
       = Inr False"
  by (simp add: JSON_parse_def getFlightMarker_def new_RedisCache_def sample_options_def
      client_get_def command_def stored_def contextualTimeout_def promise_timeout_def)

theorem getFlightMarker_reads_marker_witness:
  "fst (getFlightMarker (new_RedisCache sample_options Map.empty) 5 (Reply 1) ''flight'') = Inr False
   \<and> fst (getFlightMarker
        (snd (setFlightMarker (new_RedisCache sample_options Map.empty) 0 (Reply 1) ''flight'' 30000))
        5 (Reply 1) ''flight'') = Inr True"
proof -
  let ?c = "\<lparr>isOpen = True, entries = Map.empty,
        listeners = [''error'', ''end'', ''connect'', ''ready'', ''reconnecting'']\<rparr>"
  let ?cache = "new_RedisCache sample_options Map.empty"
  have c: "client ?cache = Some ?c" by (simp add: new_RedisCache_def)
  have o: "isOpen ?c" by simp
  have t: "1 \<le> timeout (options ?cache)" by (simp add: new_RedisCache_def sample_options_def)
  have s: "stored ?c 5 ''flight'' = None" by (simp add: stored_def)
  have set: "fst (setFlightMarker ?cache 0 (Reply 1) ''flight'' 30000) = Inr (Some ''OK'')"
    by (simp add: setFlightMarker_def new_RedisCache_def sample_options_def client_set_def
        command_def contextualTimeout_def promise_timeout_def)
  from getFlightMarker_reads_marker [OF c o t, of 5 "''flight''"] s set
  show ?thesis by auto
qed

subsection \<open>The cache key\<close>

subsubsection \<open>Payloads with nothing in them\<close>

lemma digit_chars:
  "digit_char 0 = CHR ''0''" "digit_char 1 = CHR ''1''" "digit_char 2 = CHR ''2''"
  "digit_char 3 = CHR ''3''" "digit_char 4 = CHR ''4''" "digit_char 5 = CHR ''5''"
  "digit_char 6 = CHR ''6''" "digit_char 7 = CHR ''7''" "digit_char 8 = CHR ''8''"
  "digit_char 9 = CHR ''9''"
  by code_simp+

lemma decimal_0: "decimal 0 = ''0''"
  by (simp add: decimal.simps digit_chars)

lemma serialize_empty_object: "serialize ex (JObj []) = ''object:0:''"
  by (simp add: decimal_0)

lemma objectHash_empty_object:
  "objectHash (JObj []) opts = Inr (encode (encoding opts) (digest (algorithm opts) ''object:0:''))"
  by (simp add: objectHash_def decimal_0)

lemma pick_props_empty: "pick_props [] ps acc = acc"
  by (induction ps arbitrary: acc) simp_all

lemma getKeyData_no_object:
  "getKeyData ev JNull = JObj []" "getKeyData ev JUndefined = JObj []" "getKeyData ev (JObj []) = JObj []"
  by (simp_all add: getKeyData_def includableAdapterRequestProperties_def pick_props_empty)

lemma length_be_bytes: "length (be_bytes n v) = n"
  by (induction n arbitrary: v) simp_all

lemma length_sha1: "length (sha1 msg) = 20"
  by (simp add: sha1_def length_be_bytes split: prod.splits)

lemma length_encode_Hex: "length (encode Hex bs) = 2 * length bs"
  by (induction bs) (simp_all add: encode_def hex_byte_def)


text \<open>
  C7 (amended). The hash of \<open>null\<close> and of \<open>undefined\<close> is, in every mode, the digest
  of the text of the empty object, \<open>object:0:\<close>, taken with the given options, and so is
  the hash of the empty object in include mode; nothing is thrown. In exclude mode the
  empty object, which is truthy, is hashed with the options of \<open>getHashOpts\<close> and not with
  the given ones: the two modes give the same string when the given options have the
  algorithm \<open>sha1\<close> and the encoding \<open>hex\<close>.
\<close>

theorem hash_of_nothing:
  "(data = JNull \<or> data = JUndefined \<longrightarrow>
      hash ev data opts mode = Inr (encode (encoding opts) (digest (algorithm opts) ''object:0:'')))
   \<and> hash ev (JObj []) opts None = Inr (encode (encoding opts) (digest (algorithm opts) ''object:0:''))
   \<and> hash ev (JObj []) opts (Some Include)
        = Inr (encode (encoding opts) (digest (algorithm opts) ''object:0:''))
   \<and> hash ev (JObj []) opts (Some Exclude) = Inr (encode Hex (digest Sha1 ''object:0:''))
   \<and> (algorithm opts = Sha1 \<and> encoding opts = Hex \<longrightarrow>
        hash ev (JObj []) opts (Some Exclude) = hash ev (JObj []) opts (Some Include))"
  by (auto simp: hash_def getKeyData_no_object objectHash_empty_object getHashOpts_def)


text \<open>
  C7 as stated fails: with the encoding \<open>binary\<close> in the given options, the hash of the
  empty object is a string of 20 characters in include mode and of 40 in exclude mode.
\<close>

theorem hash_of_empty_object_counterexample:
  "hash default_env (JObj []) ((getHashOpts default_env)\<lparr>encoding := Binary\<rparr>) (Some Include)
     \<noteq> hash default_env (JObj []) ((getHashOpts default_env)\<lparr>encoding := Binary\<rparr>) (Some Exclude)"
proof -
  have "length (encode Binary (digest Sha1 ''object:0:'')) = 20"
    by (simp add: encode_def digest_def length_sha1)
  moreover have "length (encode Hex (digest Sha1 ''object:0:'')) = 40"
    by (simp add: length_encode_Hex digest_def length_sha1)
  ultimately have "encode Binary (digest Sha1 ''object:0:'') \<noteq> encode Hex (digest Sha1 ''object:0:'')"
    by (metis numeral_eq_iff semiring_norm(88) num.inject(1))
  then show ?thesis
    by (simp add: hash_def getKeyData_no_object objectHash_empty_object getHashOpts_def)
qed


theorem hash_of_nothing_witness:
  "hash default_env JUndefined (getHashOpts default_env) (Some Exclude)
     = hash default_env (JObj []) (getHashOpts default_env) (Some Include)
   \<and> hash default_env (JObj []) (getHashOpts default_env) (Some Exclude)
     = hash default_env (JObj []) (getHashOpts default_env) (Some Include)"
  using hash_of_nothing [of JUndefined default_env "getHashOpts default_env" "Some Exclude"]
  by (simp add: getHashOpts_def)

subsubsection \<open>The digests of two texts\<close>

lemma sha1_data_1_2:
  "sha1 (map (\<lambda>c. int (of_char c)) ''object:1:string:4:data:array:2:number:1number:2,'') =
     [82, 160, 146, 241, 32, 77, 69, 152, 253, 100,
      149, 85, 175, 140, 18, 53, 28, 248, 244, 97]"
proof -
  have bytes: "map (\<lambda>c. int (of_char c)) ''object:1:string:4:data:array:2:number:1number:2,'' =
     [111, 98, 106, 101, 99, 116, 58, 49, 58, 115, 116, 114,
      105, 110, 103, 58, 52, 58, 100, 97, 116, 97, 58, 97,
      114, 114, 97, 121, 58, 50, 58, 110, 117, 109, 98, 101,
      114, 58, 49, 110, 117, 109, 98, 101, 114, 58, 50, 44]"
    by simp
  have len: "length
     [111, 98, 106, 101, 99, 116, 58, 49, 58, 115, 116, 114,
      105, 110, 103, 58, 52, 58, 100, 97, 116, 97, 58, 97,
      114, 114, 97, 121, 58, 50, 58, 110, 117, 109, 98, 101,
      114, 58, 49, 110, 117, 109, 98, 101, 114, 58, 50, 44] = 48"
    by simp
  have zeros: "(119 - 48 mod 64) mod 64 = (7::nat)"
    by simp
  have block: "words_of (pad
     [111, 98, 106, 101, 99, 116, 58, 49, 58, 115, 116, 114,
      105, 110, 103, 58, 52, 58, 100, 97, 116, 97, 58, 97,
      114, 114, 97, 121, 58, 50, 58, 110, 117, 109, 98, 101,
      114, 58, 49, 110, 117, 109, 98, 101, 114, 58, 50, 44]) =
     [1868720741, 1668561457, 980644978, 1768843066, 876242017, 1952528993,
      1920098681, 976370286, 1970102885, 1916416366, 1970102885, 1916416556,
      2147483648, 0, 0, 384]"
    unfolding pad_def len zeros by (simp add: eval_nat_numeral)
  have schedule: "expand 64
     [384, 0, 0, 2147483648, 1916416556, 1970102885,
      1916416366, 1970102885, 976370286, 1920098681, 1952528993, 876242017,
      1768843066, 980644978, 1668561457, 1868720741] =
     [2764928407, 3314621216, 854661285, 881591831, 1824812222, 24133294,
      2473838369, 3427365084, 1471290227, 4011548480, 1681167924, 2629006893,
      1374291140, 3037901783, 464687990, 3934557341, 2867475673, 194194163,
      1456869393, 2652215540, 4246164054, 2081238791, 3221716464, 2493093312,
      1569141437, 3110933591, 2354698849, 4069762243, 3007258312, 4278052598,
      1970405488, 3387959657, 1670754389, 138672657, 950684987, 1977479000,
      1636265752, 1755425936, 3449537991, 1732547960, 4066265103, 9370506,
      4062514930, 4184393411, 63817703, 2367826301, 4239194121, 909436298,
      3404040052, 3541863440, 3425960843, 3707861176, 2558453400, 2519584642,
      2190542840, 1637772870, 1211327048, 2970114164, 1882705863, 1813101476,
      1604005670, 4131973100, 4030781642, 1090058468, 384, 0,
      0, 2147483648, 1916416556, 1970102885, 1916416366, 1970102885,
      976370286, 1920098681, 1952528993, 876242017, 1768843066, 980644978,
      1668561457, 1868720741]"
    by (simp add: eval_nat_numeral rotl_def w32_def)
  have final_state: "rounds 0 (rev (expand 64
     [384, 0, 0, 2147483648, 1916416556, 1970102885,
      1916416366, 1970102885, 976370286, 1920098681, 1952528993, 876242017,
      1768843066, 980644978, 1668561457, 1868720741]))
       (0x67452301, 0xEFCDAB89, 0x98BADCFE, 0x10325476, 0xC3D2E1F0) =
     (3948638192, 813668879, 1688844375, 2673458623, 1495667313)"
    unfolding schedule by (simp add: rotl_def w32_def round_f_def round_k_def)
  have compressed: "compress (0x67452301, 0xEFCDAB89, 0x98BADCFE, 0x10325476, 0xC3D2E1F0)
     [1868720741, 1668561457, 980644978, 1768843066, 876242017, 1952528993,
      1920098681, 976370286, 1970102885, 1916416366, 1970102885, 1916416556,
      2147483648, 0, 0, 384] =
     (1386255089, 541935000, 4251227477, 2945192501, 486077537)"
    apply (simp only: compress.simps)
    apply (simp only: rev.simps append.simps)
    apply (subst final_state)
    apply (simp add: w32_def)
    done
  have digest: "blocks (0x67452301, 0xEFCDAB89, 0x98BADCFE, 0x10325476, 0xC3D2E1F0)
     [1868720741, 1668561457, 980644978, 1768843066, 876242017, 1952528993,
      1920098681, 976370286, 1970102885, 1916416366, 1970102885, 1916416556,
      2147483648, 0, 0, 384] =
     (1386255089, 541935000, 4251227477, 2945192501, 486077537)"
    by (subst blocks.simps, simp add: compressed del: compress.simps, subst blocks.simps, simp)
  show ?thesis
    unfolding sha1_def bytes block digest by (simp add: eval_nat_numeral)
qed

lemma sha1_data_2_1:
  "sha1 (map (\<lambda>c. int (of_char c)) ''object:1:string:4:data:array:2:number:2number:1,'') =
     [53, 4, 54, 228, 58, 97, 171, 158, 3, 240,
      251, 96, 36, 132, 87, 76, 70, 43, 169, 113]"
proof -
  have bytes: "map (\<lambda>c. int (of_char c)) ''object:1:string:4:data:array:2:number:2number:1,'' =
     [111, 98, 106, 101, 99, 116, 58, 49, 58, 115, 116, 114,
      105, 110, 103, 58, 52, 58, 100, 97, 116, 97, 58, 97,
      114, 114, 97, 121, 58, 50, 58, 110, 117, 109, 98, 101,
      114, 58, 50, 110, 117, 109, 98, 101, 114, 58, 49, 44]"
    by simp
  have len: "length
     [111, 98, 106, 101, 99, 116, 58, 49, 58, 115, 116, 114,
      105, 110, 103, 58, 52, 58, 100, 97, 116, 97, 58, 97,
      114, 114, 97, 121, 58, 50, 58, 110, 117, 109, 98, 101,
      114, 58, 50, 110, 117, 109, 98, 101, 114, 58, 49, 44] = 48"
    by simp
  have zeros: "(119 - 48 mod 64) mod 64 = (7::nat)"
    by simp
  have block: "words_of (pad
     [111, 98, 106, 101, 99, 116, 58, 49, 58, 115, 116, 114,
      105, 110, 103, 58, 52, 58, 100, 97, 116, 97, 58, 97,
      114, 114, 97, 121, 58, 50, 58, 110, 117, 109, 98, 101,
      114, 58, 50, 110, 117, 109, 98, 101, 114, 58, 49, 44]) =
     [1868720741, 1668561457, 980644978, 1768843066, 876242017, 1952528993,
      1920098681, 976370286, 1970102885, 1916416622, 1970102885, 1916416300,
      2147483648, 0, 0, 384]"
    unfolding pad_def len zeros by (simp add: eval_nat_numeral)
  have schedule: "expand 64
     [384, 0, 0, 2147483648, 1916416300, 1970102885,
      1916416622, 1970102885, 976370286, 1920098681, 1952528993, 876242017,
      1768843066, 980644978, 1668561457, 1868720741] =
     [4100789655, 3394427680, 1227921573, 75286039, 1743092926, 1044397742,
      2281199393, 3430510812, 1209719667, 3811073856, 1729910324, 2478011949,
      1426044100, 3051533271, 470655862, 3917780125, 2858235097, 140565235,
      1469648913, 2652215540, 4243417686, 2093870855, 3224681968, 2489947584,
      1574408893, 3110261847, 2351045217, 4070790339, 3006545608, 4274181878,
      1969653872, 3387955561, 1669994581, 139446801, 950625595, 1976758104,
      1635941144, 1755405456, 3449584071, 1732744568, 4066311183, 9243530,
      4062462706, 4184393411, 63717351, 2367875453, 4239181833, 909383050,
      3404060532, 3541860368, 3425991563, 3707848888, 2558454936, 2519593858,
      2190545912, 1637772870, 1211333704, 2970113140, 1882705863, 1813100452,
      1604004134, 4131973100, 4030783178, 1090058468, 384, 0,
      0, 2147483648, 1916416300, 1970102885, 1916416622, 1970102885,
      976370286, 1920098681, 1952528993, 876242017, 1768843066, 980644978,
      1668561457, 1868720741]"
    by (simp add: eval_nat_numeral rotl_def w32_def)
  have final_state: "rounds 0 (rev (expand 64
     [384, 0, 0, 2147483648, 1916416300, 1970102885,
      1916416622, 1970102885, 976370286, 1920098681, 1952528993, 876242017,
      1768843066, 980644978, 1668561457, 1868720741]))
       (0x67452301, 0xEFCDAB89, 0x98BADCFE, 0x10325476, 0xC3D2E1F0) =
     (3451851747, 1251213333, 1798708834, 340918998, 2186856321)"
    unfolding schedule by (simp add: rotl_def w32_def round_f_def round_k_def)
  have compressed: "compress (0x67452301, 0xEFCDAB89, 0x98BADCFE, 0x10325476, 0xC3D2E1F0)
     [1868720741, 1668561457, 980644978, 1768843066, 876242017, 1952528993,
      1920098681, 976370286, 1970102885, 1916416622, 1970102885, 1916416300,
      2147483648, 0, 0, 384] =
     (889468644, 979479454, 66124640, 612652876, 1177266545)"
    apply (simp only: compress.simps)
    apply (simp only: rev.simps append.simps)
    apply (subst final_state)
    apply (simp add: w32_def)
    done
  have digest: "blocks (0x67452301, 0xEFCDAB89, 0x98BADCFE, 0x10325476, 0xC3D2E1F0)
     [1868720741, 1668561457, 980644978, 1768843066, 876242017, 1952528993,
      1920098681, 976370286, 1970102885, 1916416622, 1970102885, 1916416300,
      2147483648, 0, 0, 384] =
     (889468644, 979479454, 66124640, 612652876, 1177266545)"
    by (subst blocks.simps, simp add: compressed del: compress.simps, subst blocks.simps, simp)
  show ?thesis
    unfolding sha1_def bytes block digest by (simp add: eval_nat_numeral)
qed

subsubsection \<open>The order of the fields\<close>

lemma sort_key_fst_unique:
  assumes "distinct (map fst xs)" and "distinct (map fst ys)" and "set xs = set ys"
  shows "sort_key fst xs = sort_key fst ys"
proof (rule sort_key_eq_sort_key)
  from assms(1) have "distinct xs" by (simp add: distinct_map)
  moreover from assms(2) have "distinct ys" by (simp add: distinct_map)
  ultimately show "mset xs = mset ys"
    using assms(3) by (simp add: set_eq_iff_mset_eq_distinct)
  show "inj_on fst (set xs)"
    using assms(1) by (simp add: distinct_map)
qed

lemma serialize_field_perm: "field_perm a b \<Longrightarrow> serialize ex a = serialize ex b"
proof (induction a b rule: field_perm.induct)
  case (1 kvs kvs')
  let ?g = "\<lambda>(k, v). (k, serialize ex v)"
  from "1.prems" have d: "distinct (map fst kvs)" and d': "distinct (map fst kvs')"
    and keys: "set (map fst kvs) = set (map fst kvs')"
    and rel: "\<And>k v v'. (k, v) \<in> set kvs \<Longrightarrow> (k, v') \<in> set kvs' \<Longrightarrow> field_perm v v'"
    by auto
  have same: "serialize ex v = serialize ex v'" if "(k, v) \<in> set kvs" "(k, v') \<in> set kvs'" for k v v'
    using "1.IH" [of "(k, v)" k v "(k, v')" k v'] that rel by simp
  have "set (map ?g kvs) = set (map ?g kvs')"
  proof (intro set_eqI iffI)
    fix x assume "x \<in> set (map ?g kvs)"
    then obtain k v where kv: "(k, v) \<in> set kvs" "x = (k, serialize ex v)" by auto
    then have "k \<in> set (map fst kvs')" using keys by force
    then obtain v' where "(k, v') \<in> set kvs'" by auto
    with kv same show "x \<in> set (map ?g kvs')" by force
  next
    fix x assume "x \<in> set (map ?g kvs')"
    then obtain k v' where kv: "(k, v') \<in> set kvs'" "x = (k, serialize ex v')" by auto
    then have "k \<in> set (map fst kvs)" using keys by force
    then obtain v where "(k, v) \<in> set kvs" by auto
    with kv same show "x \<in> set (map ?g kvs)" by force
  qed
  moreover have fg: "fst \<circ> ?g = fst" by (auto simp: fun_eq_iff)
  have "distinct (map fst (map ?g kvs))" "distinct (map fst (map ?g kvs'))"
    using d d' by (simp_all add: fg)
  ultimately have "sort_key fst (map ?g kvs) = sort_key fst (map ?g kvs')"
    by (intro sort_key_fst_unique)
  then show ?case by simp
next
  case (2 xs ys)
  from "2.prems" have "list_all2 field_perm xs ys" by simp
  then have "map (serialize ex) xs = map (serialize ex) ys \<and> length xs = length ys"
    using "2.IH"
  proof (induction xs ys rule: list_all2_induct)
    case Nil
    then show ?case by simp
  next
    case (Cons x xs y ys)
    then show ?case by simp
  qed
  then show ?case by simp
qed simp_all

lemma map_of_put: "map_of (put k v kvs) = (map_of kvs)(k \<mapsto> v)"
  by (induction kvs) (auto simp: fun_eq_iff)

lemma keys_eq_dom: "set (map fst kvs) = dom (map_of kvs)"
  by (simp add: dom_map_of_conv_image_fst)

lemma keys_put: "set (map fst (put k v kvs)) = insert k (set (map fst kvs))"
  unfolding keys_eq_dom by (simp add: map_of_put)

lemma distinct_put: "distinct (map fst kvs) \<Longrightarrow> distinct (map fst (put k v kvs))"
proof (induction kvs)
  case Nil
  then show ?case by simp
next
  case (Cons p kvs)
  obtain k' v' where p: "p = (k', v')" by (cases p)
  from Cons have "fst p \<notin> set (map fst kvs)" "distinct (map fst (put k v kvs))" by simp_all
  then show ?case
    using Cons.prems unfolding p by (simp add: keys_put del: set_map)
qed

lemma distinct_pick_props:
  "distinct (map fst acc) \<Longrightarrow> distinct (map fst (pick_props kvs ps acc))"
  by (induction ps arbitrary: acc) (auto simp: distinct_put split: option.splits)

lemma map_of_pick_props:
  "map_of (pick_props kvs ps acc) k =
     (if k \<in> set ps \<and> map_of kvs k \<noteq> None then map_of kvs k else map_of acc k)"
  by (induction ps arbitrary: acc) (auto simp: map_of_put split: option.splits)

lemma field_perm_objects:
  "field_perm (JObj kvs) (JObj kvs') \<longleftrightarrow>
     distinct (map fst kvs) \<and> distinct (map fst kvs') \<and> dom (map_of kvs) = dom (map_of kvs') \<and>
     (\<forall>k v v'. map_of kvs k = Some v \<and> map_of kvs' k = Some v' \<longrightarrow> field_perm v v')"
proof -
  have "(\<forall>(k, v) \<in> set kvs. \<forall>(k', v') \<in> set kvs'. k = k' \<longrightarrow> field_perm v v') \<longleftrightarrow>
      (\<forall>k v v'. map_of kvs k = Some v \<and> map_of kvs' k = Some v' \<longrightarrow> field_perm v v')"
    if "distinct (map fst kvs)" "distinct (map fst kvs')"
    using that by (auto simp: map_of_eq_Some_iff) 
  then show ?thesis
    by (auto simp: keys_eq_dom simp del: set_map)
qed

lemma field_perm_pick:
  assumes "field_perm a b"
  shows "field_perm (pick a ps) (pick b ps)"
proof (cases "\<exists>kvs kvs'. a = JObj kvs \<and> b = JObj kvs'")
  case True
  then obtain kvs kvs' where ab: "a = JObj kvs" "b = JObj kvs'" by blast
  from assms have dom: "dom (map_of kvs) = dom (map_of kvs')"
    and rel: "\<And>k v v'. map_of kvs k = Some v \<Longrightarrow> map_of kvs' k = Some v' \<Longrightarrow> field_perm v v'"
    unfolding ab field_perm_objects by blast+
  have none: "map_of kvs k = None \<longleftrightarrow> map_of kvs' k = None" for k
    using dom by (metis domIff)
  have "(map_of (pick_props kvs ps []) k = None) = (map_of (pick_props kvs' ps []) k = None)" for k
    using none [of k] by (cases "map_of kvs k"; cases "map_of kvs' k") (simp_all add: map_of_pick_props)
  then have "dom (map_of (pick_props kvs ps [])) = dom (map_of (pick_props kvs' ps []))"
    unfolding dom_def by simp
  moreover have "field_perm v v'"
    if "map_of (pick_props kvs ps []) k = Some v" "map_of (pick_props kvs' ps []) k = Some v'" for k v v'
    using that rel [of k v v'] by (auto simp: map_of_pick_props split: if_splits)
  ultimately show ?thesis
    unfolding ab pick.simps field_perm_objects
    by (auto simp: distinct_pick_props)
next
  case False
  with assms show ?thesis
    by (cases a; cases b) simp_all
qed

lemma map_of_filter_key:
  "map_of (filter (\<lambda>(k, v). P k) kvs) k = (if P k then map_of kvs k else None)"
  by (induction kvs) auto

lemma map_of_map_value:
  "map_of (map (\<lambda>(k, v). (k, h k v)) kvs) k = map_option (h k) (map_of kvs k)"
  by (induction kvs) auto

lemma keys_map_value: "map fst (map (\<lambda>(k, v). (k, h k v)) kvs) = map fst kvs"
  by (induction kvs) auto

lemma field_perm_unset:
  assumes "field_perm a b"
  shows "field_perm (unset names a) (unset names b)"
proof (cases "\<exists>kvs kvs'. a = JObj kvs \<and> b = JObj kvs'")
  case True
  then obtain kvs kvs' where ab: "a = JObj kvs" "b = JObj kvs'" by blast
  from assms have d: "distinct (map fst kvs)" "distinct (map fst kvs')"
    and dom: "dom (map_of kvs) = dom (map_of kvs')"
    and rel: "\<And>k v v'. map_of kvs k = Some v \<Longrightarrow> map_of kvs' k = Some v' \<Longrightarrow> field_perm v v'"
    unfolding ab field_perm_objects by blast+
  let ?f = "filter (\<lambda>(k, v). k \<notin> set names)"
  have "distinct (map fst (?f kvs))" "distinct (map fst (?f kvs'))"
    using d by (simp_all add: distinct_map_filter)
  moreover have "dom (map_of (?f kvs)) = dom (map_of (?f kvs'))"
    using dom unfolding dom_def by (auto simp: map_of_filter_key)
  moreover have "field_perm v v'"
    if "map_of (?f kvs) k = Some v" "map_of (?f kvs') k = Some v'" for k v v'
    using that rel [of k v v'] by (auto simp: map_of_filter_key split: if_splits)
  ultimately show ?thesis
    unfolding ab unset.simps field_perm_objects by blast
next
  case False
  with assms show ?thesis
    by (cases a; cases b) simp_all
qed

lemma field_perm_omit_data:
  assumes "field_perm a b"
  shows "field_perm (omit_data a names) (omit_data b names)"
proof (cases "\<exists>kvs kvs'. a = JObj kvs \<and> b = JObj kvs'")
  case True
  then obtain kvs kvs' where ab: "a = JObj kvs" "b = JObj kvs'" by blast
  from assms have d: "distinct (map fst kvs)" "distinct (map fst kvs')"
    and dom: "dom (map_of kvs) = dom (map_of kvs')"
    and rel: "\<And>k v v'. map_of kvs k = Some v \<Longrightarrow> map_of kvs' k = Some v' \<Longrightarrow> field_perm v v'"
    unfolding ab field_perm_objects by blast+
  let ?h = "\<lambda>k v. if k = ''data'' then unset names v else v"
  let ?m = "map (\<lambda>(k, v). (k, ?h k v))"
  have "distinct (map fst (?m kvs))" "distinct (map fst (?m kvs'))"
    using d by (simp_all only: keys_map_value)
  moreover have "dom (map_of (?m kvs)) = dom (map_of (?m kvs'))"
    using dom unfolding dom_def by (simp only: map_of_map_value) auto
  moreover have "field_perm w w'"
    if "map_of (?m kvs) k = Some w" "map_of (?m kvs') k = Some w'" for k w w'
  proof -
    from that obtain v v' where v: "map_of kvs k = Some v" "w = ?h k v"
        "map_of kvs' k = Some v'" "w' = ?h k v'"
      unfolding map_of_map_value by auto
    from rel [OF v(1) v(3)] show ?thesis
      unfolding v(2) v(4) by (simp add: field_perm_unset)
  qed
  ultimately show ?thesis
    unfolding ab omit_data.simps field_perm_objects by blast
next
  case False
  with assms show ?thesis
    by (cases a; cases b) simp_all
qed

lemma field_perm_getKeyData:
  "field_perm a b \<Longrightarrow> field_perm (getKeyData ev a) (getKeyData ev b)"
  unfolding getKeyData_def by (intro field_perm_omit_data field_perm_pick)

lemma field_perm_truthy: "field_perm a b \<Longrightarrow> truthy a = truthy b"
  by (cases a; cases b) simp_all

lemma field_perm_undefined: "field_perm a b \<Longrightarrow> (a = JUndefined) = (b = JUndefined)"
  by (cases a; cases b) simp_all

lemma objectHash_field_perm: "field_perm a b \<Longrightarrow> objectHash a opts = objectHash b opts"
  using serialize_field_perm [of a b "excludeKeys opts"] field_perm_undefined [of a b]
  by (simp add: objectHash_def)

lemma hash_field_perm:
  assumes "field_perm P1 P2"
  shows "hash ev P1 opts mode = hash ev P2 opts mode"
  using objectHash_field_perm [OF assms] objectHash_field_perm [OF field_perm_getKeyData [OF assms]]
    field_perm_truthy [OF assms]
  by (simp add: hash_def)

lemma hex_data_1_2:
  "encode Hex [82, 160, 146, 241, 32, 77, 69, 152, 253, 100, 149, 85, 175, 140, 18, 53, 28, 248, 244, 97]
     = ''52a092f1204d4598fd649555af8c12351cf8f461''"
  by code_simp

lemma hex_data_2_1:
  "encode Hex [53, 4, 54, 228, 58, 97, 171, 158, 3, 240, 251, 96, 36, 132, 87, 76, 70, 43, 169, 113]
     = ''350436e43a61ab9e03f0fb602484574c462ba971''"
  by code_simp

lemma serialize_data_1_2:
  "serialize (excludeKeys (getHashOpts default_env)) (JObj [(''data'', JArr [JNum 1 0, JNum 2 0])])
     = ''object:1:string:4:data:array:2:number:1number:2,''"
  by code_simp

lemma serialize_data_2_1:
  "serialize (excludeKeys (getHashOpts default_env)) (JObj [(''data'', JArr [JNum 2 0, JNum 1 0])])
     = ''object:1:string:4:data:array:2:number:2number:1,''"
  by code_simp

lemma getKeyData_data_only:
  "getKeyData default_env (JObj [(''data'', JArr xs)]) = JObj [(''data'', JArr xs)]"
  by (simp add: getKeyData_def includableAdapterRequestProperties_def default_env_def env_names_def)

lemma options_getHashOpts:
  "algorithm (getHashOpts ev) = Sha1" "encoding (getHashOpts ev) = Hex"
  by (simp_all add: getHashOpts_def)

lemma hash_data_1_2:
  "hash default_env (JObj [(''data'', JArr [JNum 1 0, JNum 2 0])]) (getHashOpts default_env) mode
     = Inr ''52a092f1204d4598fd649555af8c12351cf8f461''"
  by (simp only: hash_def getKeyData_data_only objectHash_def serialize_data_1_2 options_getHashOpts
      digest_def sha1_data_1_2 hex_data_1_2 algorithm.case json.distinct if_False if_True if_cancel)

lemma hash_data_2_1:
  "hash default_env (JObj [(''data'', JArr [JNum 2 0, JNum 1 0])]) (getHashOpts default_env) mode
     = Inr ''350436e43a61ab9e03f0fb602484574c462ba971''"
  by (simp only: hash_def getKeyData_data_only objectHash_def serialize_data_2_1 options_getHashOpts
      digest_def sha1_data_2_1 hex_data_2_1 algorithm.case json.distinct if_False if_True if_cancel)

text \<open>
  C2. Two payloads that differ in the order of the fields of their objects, at any
  depth, have the same hash, whatever the options and the mode; the order of the
  elements of an array counts: \<open>{data: [1, 2]}\<close> and \<open>{data: [2, 1]}\<close> have the hashes
  \<open>52a092f1204d4598fd649555af8c12351cf8f461\<close> and \<open>350436e43a61ab9e03f0fb602484574c462ba971\<close>
  in every mode.
\<close>

theorem hash_field_order:
  "(field_perm P1 P2 \<longrightarrow> hash ev P1 opts mode = hash ev P2 opts mode)
   \<and> hash default_env (JObj [(''data'', JArr [JNum 1 0, JNum 2 0])]) (getHashOpts default_env) mode
     \<noteq> hash default_env (JObj [(''data'', JArr [JNum 2 0, JNum 1 0])]) (getHashOpts default_env) mode"
proof (intro conjI impI)
  assume "field_perm P1 P2"
  then show "hash ev P1 opts mode = hash ev P2 opts mode"
    by (rule hash_field_perm)
next
  show "hash default_env (JObj [(''data'', JArr [JNum 1 0, JNum 2 0])]) (getHashOpts default_env) mode
     \<noteq> hash default_env (JObj [(''data'', JArr [JNum 2 0, JNum 1 0])]) (getHashOpts default_env) mode"
    unfolding hash_data_1_2 hash_data_2_1 by simp
qed

theorem hash_field_order_witness:
  "field_perm
     (JObj [(''id'', JStr ''1''),
            (''data'', JObj [(''base'', JStr ''ETH''), (''legs'', JArr [JObj [(''from'', JNum 1 0), (''to'', JNum 2 0)]])])])
     (JObj [(''data'', JObj [(''legs'', JArr [JObj [(''to'', JNum 2 0), (''from'', JNum 1 0)]]), (''base'', JStr ''ETH'')]),
            (''id'', JStr ''1'')])
   \<and> hash default_env
     (JObj [(''id'', JStr ''1''),
            (''data'', JObj [(''base'', JStr ''ETH''), (''legs'', JArr [JObj [(''from'', JNum 1 0), (''to'', JNum 2 0)]])])])
     (getHashOpts default_env) (Some Exclude)
   = hash default_env
     (JObj [(''data'', JObj [(''legs'', JArr [JObj [(''to'', JNum 2 0), (''from'', JNum 1 0)]]), (''base'', JStr ''ETH'')]),
            (''id'', JStr ''1'')])
     (getHashOpts default_env) (Some Exclude)"
  using hash_field_order [of
     "JObj [(''id'', JStr ''1''),
            (''data'', JObj [(''base'', JStr ''ETH''), (''legs'', JArr [JObj [(''from'', JNum 1 0), (''to'', JNum 2 0)]])])]"
     "JObj [(''data'', JObj [(''legs'', JArr [JObj [(''to'', JNum 2 0), (''from'', JNum 1 0)]]), (''base'', JStr ''ETH'')]),
            (''id'', JStr ''1'')]"
     default_env "getHashOpts default_env" "Some Exclude"]
  by (simp add: insert_commute)

subsubsection \<open>Fields that are left out, and fields that count\<close>

lemma filter_excluded_put:
  assumes "\<not> Q f"
  shows "filter (\<lambda>(k, v). Q k) (put f v kvs) = filter (\<lambda>(k, v). Q k) kvs"
  using assms by (induction kvs) auto

lemma filter_kept_put:
  assumes "Q p"
  shows "filter (\<lambda>(k, v). Q k) (put p x acc) = put p x (filter (\<lambda>(k, v). Q k) acc)"
  using assms by (induction acc) auto

lemma filter_map_value:
  "filter (\<lambda>(k, t). Q k) (map (\<lambda>(k, v). (k, h k v)) kvs) =
     map (\<lambda>(k, v). (k, h k v)) (filter (\<lambda>(k, v). Q k) kvs)"
  by (induction kvs) auto

text \<open>The text of an object depends on the properties that are not excluded only.\<close>

lemma serialize_kept_only:
  assumes "filter (\<lambda>(k, v). \<not> ex k) kvs = filter (\<lambda>(k, v). \<not> ex k) kvs'"
  shows "serialize ex (JObj kvs) = serialize ex (JObj kvs')"
proof -
  let ?g = "\<lambda>(k, v). (k, serialize ex v)"
  have "filter (\<lambda>(k, t). \<not> ex k) (sort_key fst (map ?g l)) =
      sort_key fst (map ?g (filter (\<lambda>(k, v). \<not> ex k) l))" for l
    by (simp only: filter_sort filter_map_value)
  with assms show ?thesis by simp
qed

lemma serialize_put_excluded:
  "ex f \<Longrightarrow> serialize ex (JObj (put f v kvs)) = serialize ex (JObj kvs)"
  by (rule serialize_kept_only) (simp add: filter_excluded_put)

lemma pick_props_kept:
  assumes "\<And>p. \<not> ex p \<Longrightarrow> map_of K p = map_of K' p"
    and "filter (\<lambda>(k, v). \<not> ex k) acc = filter (\<lambda>(k, v). \<not> ex k) acc'"
  shows "filter (\<lambda>(k, v). \<not> ex k) (pick_props K ps acc) =
     filter (\<lambda>(k, v). \<not> ex k) (pick_props K' ps acc')"
  using assms(2)
proof (induction ps arbitrary: acc acc')
  case Nil
  then show ?case by simp
next
  case (Cons p ps)
  show ?case
  proof (cases "ex p")
    case True
    then have "filter (\<lambda>(k, v). \<not> ex k) (case map_of K p of None \<Rightarrow> acc | Some x \<Rightarrow> put p x acc) =
        filter (\<lambda>(k, v). \<not> ex k) (case map_of K' p of None \<Rightarrow> acc' | Some x \<Rightarrow> put p x acc')"
      using Cons.prems by (simp add: filter_excluded_put split: option.splits)
    then show ?thesis by (simp add: Cons.IH)
  next
    case False
    then have "map_of K p = map_of K' p" by (rule assms(1))
    moreover from False have "filter (\<lambda>(k, v). \<not> ex k) (put p x acc) =
        filter (\<lambda>(k, v). \<not> ex k) (put p x acc')" for x
      using Cons.prems by (simp add: filter_kept_put)
    ultimately have "filter (\<lambda>(k, v). \<not> ex k) (case map_of K p of None \<Rightarrow> acc | Some x \<Rightarrow> put p x acc) =
        filter (\<lambda>(k, v). \<not> ex k) (case map_of K' p of None \<Rightarrow> acc' | Some x \<Rightarrow> put p x acc')"
      using Cons.prems by (simp split: option.splits)
    then show ?thesis by (simp add: Cons.IH)
  qed
qed

lemma getKeyData_put_excluded:
  assumes "ex f"
  shows "serialize ex (getKeyData ev (JObj (put f v kvs))) = serialize ex (getKeyData ev (JObj kvs))"
proof -
  have "filter (\<lambda>(k, v). \<not> ex k) (pick_props (put f v kvs) ps []) =
      filter (\<lambda>(k, v). \<not> ex k) (pick_props kvs ps [])" for ps
    using assms by (intro pick_props_kept) (auto simp: map_of_put)
  then show ?thesis
    unfolding getKeyData_def pick.simps omit_data.simps
    by (intro serialize_kept_only) (simp only: filter_map_value)
qed

lemma pick_props_cong:
  assumes "\<And>p. p \<in> set ps \<Longrightarrow> map_of K p = map_of K' p"
  shows "pick_props K ps acc = pick_props K' ps acc"
  using assms by (induction ps arbitrary: acc) simp_all

lemma getKeyData_put_not_included:
  assumes "f \<notin> set (includableAdapterRequestProperties ev)"
  shows "getKeyData ev (JObj (put f v kvs)) = getKeyData ev (JObj kvs)"
proof -
  have "pick_props (put f v kvs) (includableAdapterRequestProperties ev) [] =
      pick_props kvs (includableAdapterRequestProperties ev) []"
    using assms by (intro pick_props_cong) (auto simp: map_of_put)
  then show ?thesis by (simp add: getKeyData_def)
qed

lemma map_value_put:
  "map (\<lambda>(k, v). (k, h k v)) (put p x acc) = put p (h p x) (map (\<lambda>(k, v). (k, h k v)) acc)"
  by (induction acc) auto

lemma pick_props_map_value:
  fixes h :: "string \<Rightarrow> json \<Rightarrow> json"
  assumes "\<And>p. map_option (h p) (map_of K p) = map_option (h p) (map_of K' p)"
    and "map (\<lambda>(k, v). (k, h k v)) acc = map (\<lambda>(k, v). (k, h k v)) acc'"
  shows "map (\<lambda>(k, v). (k, h k v)) (pick_props K ps acc) =
     map (\<lambda>(k, v). (k, h k v)) (pick_props K' ps acc')"
  using assms(2)
proof (induction ps arbitrary: acc acc')
  case Nil
  then show ?case by simp
next
  case (Cons p ps)
  have "map (\<lambda>(k, v). (k, h k v)) (case map_of K p of None \<Rightarrow> acc | Some x \<Rightarrow> put p x acc) =
      map (\<lambda>(k, v). (k, h k v)) (case map_of K' p of None \<Rightarrow> acc' | Some x \<Rightarrow> put p x acc')"
  proof (cases "map_of K p")
    case None
    with assms(1) [of p] have "map_of K' p = None" by simp
    with None Cons.prems show ?thesis by simp
  next
    case (Some a)
    with assms(1) [of p] obtain aa where aa: "map_of K' p = Some aa" "h p a = h p aa"
      by (cases "map_of K' p") simp_all
    have "map (\<lambda>(k, v). (k, h k v)) (put p a acc) = put p (h p a) (map (\<lambda>(k, v). (k, h k v)) acc)"
      by (rule map_value_put)
    also have "\<dots> = put p (h p aa) (map (\<lambda>(k, v). (k, h k v)) acc')"
      by (simp only: aa(2) Cons.prems)
    also have "\<dots> = map (\<lambda>(k, v). (k, h k v)) (put p aa acc')"
      by (rule map_value_put [symmetric])
    finally show ?thesis by (simp only: Some aa(1) option.case)
  qed
  then show ?case by (simp add: Cons.IH)
qed

lemma unset_set_field:
  assumes "f \<in> set names"
  shows "unset names (set_field f v d) = unset names d"
  using assms by (cases d) (simp_all add: filter_excluded_put)

lemma getKeyData_set_data_field:
  assumes "f \<in> set excludableInternalAdapterRequestProperties"
  shows "getKeyData ev (set_data_field f v P) = getKeyData ev P"
proof (cases P)
  case (JObj kvs)
  show ?thesis
  proof (cases "map_of kvs ''data''")
    case None
    with JObj show ?thesis by simp
  next
    case (Some d)
    let ?h = "\<lambda>k w. if k = ''data'' then unset excludableInternalAdapterRequestProperties w else w"
    have "map_option (?h p) (map_of (put ''data'' (set_field f v d) kvs) p) =
        map_option (?h p) (map_of kvs p)" for p
      using Some assms by (simp add: map_of_put unset_set_field)
    then have "map (\<lambda>(k, w). (k, ?h k w)) (pick_props (put ''data'' (set_field f v d) kvs) ps []) =
        map (\<lambda>(k, w). (k, ?h k w)) (pick_props kvs ps [])" for ps
      by (intro pick_props_map_value) simp_all
    with JObj Some show ?thesis
      by (simp add: getKeyData_def)
  qed
qed simp_all

lemma texts_unchanged:
  "f \<notin> fst ` set kvs \<Longrightarrow>
     map (\<lambda>(k, t). (k, if k = f then x else t)) (map (\<lambda>(k, w). (k, serialize ex w)) kvs) =
     map (\<lambda>(k, w). (k, serialize ex w)) kvs"
  by (induction kvs) auto

lemma texts_put:
  assumes "distinct (map fst kvs)" and "map_of kvs f = Some v0"
  shows "map (\<lambda>(k, w). (k, serialize ex w)) (put f v kvs) =
     map (\<lambda>(k, t). (k, if k = f then serialize ex v else t)) (map (\<lambda>(k, w). (k, serialize ex w)) kvs)"
  using assms
proof (induction kvs)
  case Nil
  then show ?case by simp
next
  case (Cons p kvs)
  obtain k w where p: "p = (k, w)" by (cases p)
  show ?case
  proof (cases "k = f")
    case True
    with Cons.prems p have "f \<notin> fst ` set kvs" by simp
    from texts_unchanged [OF this] True p show ?thesis by simp
  next
    case False
    with Cons p show ?thesis by simp
  qed
qed

lemma texts_put_same:
  assumes "map_of kvs f = Some v0" and "serialize ex v = serialize ex v0"
  shows "map (\<lambda>(k, w). (k, serialize ex w)) (put f v kvs) = map (\<lambda>(k, w). (k, serialize ex w)) kvs"
  using assms by (induction kvs) (auto split: if_splits)

lemma serialize_put_same_text:
  assumes "map_of kvs f = Some v0" and "serialize ex v = serialize ex v0"
  shows "serialize ex (JObj (put f v kvs)) = serialize ex (JObj kvs)"
  by (simp add: texts_put_same [OF assms])

lemma insort_key_map_value:
  "insort_key fst (k, h k t) (map (\<lambda>(k, t). (k, h k t)) ys) =
     map (\<lambda>(k, t). (k, h k t)) (insort_key fst (k, t) ys)"
  by (induction ys) auto

lemma sort_key_map_value:
  "sort_key fst (map (\<lambda>(k, t). (k, h k t)) xs) = map (\<lambda>(k, t). (k, h k t)) (sort_key fst xs)"
proof (induction xs)
  case Nil
  then show ?case by simp
next
  case (Cons x xs)
  obtain k t where x: "x = (k, t)" by (cases x)
  show ?case
    unfolding x by (simp add: Cons.IH insort_key_map_value)
qed

lemma distinct_keys_sort: "distinct (map fst xs) \<Longrightarrow> distinct (map fst (sort_key fst xs))"
  by (simp add: distinct_map)

lemma serialize_put_changes:
  assumes d: "distinct (map fst kvs)" and f: "map_of kvs f = Some v0" and nex: "\<not> ex f"
    and ne: "serialize ex v \<noteq> serialize ex v0"
  shows "serialize ex (JObj (put f v kvs)) \<noteq> serialize ex (JObj kvs)"
proof -
  let ?g = "\<lambda>(k, w). (k, serialize ex w)"
  let ?h = "\<lambda>(k, t). (k, if k = f then serialize ex v else t)"
  let ?e = "\<lambda>(k, t). ''string:'' @ decimal (length k) @ '':'' @ k @ '':'' @ t @ '',''"
  define K where "K = filter (\<lambda>(k, t). \<not> ex k) (sort_key fst (map ?g kvs))"
  have K': "filter (\<lambda>(k, t). \<not> ex k) (sort_key fst (map ?g (put f v kvs))) = map ?h K"
    unfolding K_def by (simp only: texts_put [OF d f] sort_key_map_value filter_map_value)
  have "distinct (map fst (map ?g kvs))"
    using d by (simp only: keys_map_value)
  then have "distinct (map fst (sort_key fst (map ?g kvs)))"
    by (rule distinct_keys_sort)
  then have dK: "distinct (map fst K)"
    unfolding K_def by (rule distinct_map_filter)
  from f have "(f, v0) \<in> set kvs" by (rule map_of_SomeD)
  then have "(f, serialize ex v0) \<in> set (map ?g kvs)" by force
  then have "(f, serialize ex v0) \<in> set K"
    using nex unfolding K_def by simp
  then obtain A B where K: "K = A @ (f, serialize ex v0) # B"
    by (auto dest: split_list)
  from dK have nA: "f \<notin> fst ` set A" and nB: "f \<notin> fst ` set B"
    unfolding K by auto
  have hA: "map ?h A = A"
    using nA by (intro map_idI) force
  have hB: "map ?h B = B"
    using nB by (intro map_idI) force
  have hK: "map ?h K = A @ (f, serialize ex v) # B"
    unfolding K by (simp add: hA hB)
  define pre where "pre = ''object:'' @ decimal (length K) @ '':'' @ concat (map ?e A) @
      ''string:'' @ decimal (length f) @ '':'' @ f @ '':''"
  define post where "post = '','' @ concat (map ?e B)"
  have "serialize ex (JObj kvs) = ''object:'' @ decimal (length K) @ '':'' @ concat (map ?e K)"
    unfolding K_def by (simp add: Let_def)
  then have old: "serialize ex (JObj kvs) = pre @ serialize ex v0 @ post"
    unfolding pre_def post_def by (simp add: K)
  have "serialize ex (JObj (put f v kvs)) =
      ''object:'' @ decimal (length (map ?h K)) @ '':'' @ concat (map ?e (map ?h K))"
    unfolding K' [symmetric] by (simp add: Let_def)
  then have new: "serialize ex (JObj (put f v kvs)) = pre @ serialize ex v @ post"
    unfolding pre_def post_def hK by (simp add: K)
  from ne show ?thesis
    unfolding old new by simp
qed

lemma put_put: "put k x (put k y acc) = put k x acc"
  by (induction acc) auto

lemma put_commute:
  "k \<in> fst ` set acc \<Longrightarrow> p \<noteq> k \<Longrightarrow> put p w (put k x acc) = put k x (put p w acc)"
proof (induction acc)
  case Nil
  then show ?case by simp
next
  case (Cons q acc)
  obtain a b where q: "q = (a, b)" by (cases q)
  show ?case
  proof (cases "a = k")
    case True
    with Cons.prems(2) show ?thesis unfolding q by simp
  next
    case False
    with Cons.prems(1) have "k \<in> fst ` set acc" unfolding q by auto
    from Cons.IH [OF this Cons.prems(2)] False show ?thesis unfolding q by simp
  qed
qed

lemma pick_props_put:
  "k \<in> fst ` set acc \<Longrightarrow> pick_props (put k x K) ps (put k x acc) = put k x (pick_props K ps acc)"
proof (induction ps arbitrary: acc)
  case Nil
  then show ?case by simp
next
  case (Cons p ps)
  show ?case
  proof (cases "p = k")
    case True
    show ?thesis
    proof (cases "map_of K k")
      case None
      with True Cons.IH [OF Cons.prems] show ?thesis
        by (simp add: map_of_put put_put)
    next
      case (Some y)
      have "k \<in> fst ` set (put k y acc)"
        using keys_put [of k y acc] by simp
      from Cons.IH [OF this] True Some show ?thesis
        by (simp add: map_of_put put_put)
    qed
  next
    case False
    show ?thesis
    proof (cases "map_of K p")
      case None
      with False Cons.IH [OF Cons.prems] show ?thesis
        by (simp add: map_of_put)
    next
      case (Some w)
      have "k \<in> fst ` set (put p w acc)"
        using keys_put [of p w acc] Cons.prems by simp
      from Cons.IH [OF this] False Some show ?thesis
        by (simp add: map_of_put put_commute [OF Cons.prems])
    qed
  qed
qed

lemma getKeyData_data_changed:
  assumes "map_of kvs ''data'' = Some d"
  shows "\<exists>R. distinct (map fst R)
      \<and> map_of R ''data'' = Some (unset excludableInternalAdapterRequestProperties d)
      \<and> getKeyData ev (JObj kvs) = JObj R
      \<and> getKeyData ev (JObj (put ''data'' d' kvs))
          = JObj (put ''data'' (unset excludableInternalAdapterRequestProperties d') R)"
proof -
  let ?names = "env_names (CACHE_KEY_INCLUDED_PROPS ev)"
  let ?h = "\<lambda>k w. if k = ''data'' then unset excludableInternalAdapterRequestProperties w else w"
  let ?H = "\<lambda>(k, w). (k, ?h k w)"
  define Q where "Q = pick_props kvs ?names [(''data'', d)]"
  have "distinct (map fst Q)"
    unfolding Q_def by (rule distinct_pick_props) simp
  then have 1: "distinct (map fst (map ?H Q))"
    by (simp only: keys_map_value)
  have "map_of Q ''data'' = Some d"
    unfolding Q_def using assms by (simp add: map_of_pick_props)
  then have 2: "map_of (map ?H Q) ''data'' = Some (unset excludableInternalAdapterRequestProperties d)"
    by (simp only: map_of_map_value) simp
  have 3: "getKeyData ev (JObj kvs) = JObj (map ?H Q)"
    unfolding Q_def using assms
    by (simp add: getKeyData_def includableAdapterRequestProperties_def)
  have "pick_props (put ''data'' d' kvs) ?names (put ''data'' d' [(''data'', d)]) = put ''data'' d' Q"
    unfolding Q_def by (rule pick_props_put) simp
  then have "pick_props (put ''data'' d' kvs) (''data'' # ?names) [] = put ''data'' d' Q"
    by (simp add: map_of_put)
  then have 4: "getKeyData ev (JObj (put ''data'' d' kvs)) = JObj (put ''data'' (?h ''data'' d') (map ?H Q))"
    unfolding getKeyData_def includableAdapterRequestProperties_def pick.simps omit_data.simps
    by (simp only: map_value_put)
  from 1 2 3 4 show ?thesis by auto
qed

lemma getKeyData_defined: "getKeyData ev P \<noteq> JUndefined"
  by (cases "pick P (includableAdapterRequestProperties ev)") (simp_all add: getKeyData_def)

lemma hash_include_text:
  assumes "mode \<noteq> Some Exclude"
  shows "hash ev P opts mode =
     Inr (encode (encoding opts) (digest (algorithm opts) (serialize (excludeKeys opts) (getKeyData ev P))))"
proof -
  from assms have "(case mode of None \<Rightarrow> Include | Some m \<Rightarrow> m) = Include"
    by (cases mode) (auto intro: HashMode.exhaust)
  then show ?thesis
    by (simp add: hash_def objectHash_def getKeyData_defined)
qed

lemma hash_exclude_text:
  "hash ev (JObj kvs) opts (Some Exclude) =
     Inr (encode Hex (digest Sha1 (serialize (excludeKeys (getHashOpts ev)) (JObj kvs))))"
  by (simp add: hash_def objectHash_def options_getHashOpts)

lemma excludeKeys_getHashOpts:
  "f \<in> set (excludableAdapterRequestProperties ev) \<Longrightarrow> excludeKeys (getHashOpts ev) f"
  by (simp add: getHashOpts_def)

lemma hash_set_field_volatile:
  assumes "f \<in> set (excludableAdapterRequestProperties ev)"
    and "mode = Some Exclude \<or> f \<notin> set (includableAdapterRequestProperties ev) \<or> excludeKeys opts f"
  shows "hash ev (set_field f x P) opts mode = hash ev P opts mode"
proof (cases P)
  case (JObj kvs)
  show ?thesis
  proof (cases "mode = Some Exclude")
    case True
    show ?thesis
      unfolding JObj True set_field.simps hash_exclude_text
      by (simp only: serialize_put_excluded [of "excludeKeys (getHashOpts ev)" f, OF excludeKeys_getHashOpts [OF assms(1)]])
  next
    case False
    with assms(2) have "serialize (excludeKeys opts) (getKeyData ev (JObj (put f x kvs))) =
        serialize (excludeKeys opts) (getKeyData ev (JObj kvs))"
      using getKeyData_put_not_included [of f ev x kvs] getKeyData_put_excluded [of "excludeKeys opts" f ev x kvs]
      by auto
    then show ?thesis
      unfolding JObj set_field.simps hash_include_text [OF False] by (simp only:)
  qed
qed simp_all

lemma unset_set_field_text:
  assumes "s \<in> set names \<or> ex s"
  shows "serialize ex (unset names (set_field s x d)) = serialize ex (unset names d)"
proof (cases "s \<in> set names")
  case True
  then show ?thesis by (simp add: unset_set_field)
next
  case False
  with assms have ex: "ex s" by simp
  show ?thesis
  proof (cases d)
    case (JObj dkvs)
    have "filter (\<lambda>(k, v). k \<notin> set names) (put s x dkvs) = put s x (filter (\<lambda>(k, v). k \<notin> set names) dkvs)"
      using False by (intro filter_kept_put)
    then show ?thesis
      unfolding JObj set_field.simps unset.simps
      by (simp only: serialize_put_excluded [of ex s, OF ex])
  qed simp_all
qed

lemma set_field_text:
  assumes "ex s"
  shows "serialize ex (set_field s x d) = serialize ex d"
  by (cases d) (simp_all only: set_field.simps serialize_put_excluded [of ex s, OF assms])

lemma hash_set_data_field_hidden:
  assumes "if mode = Some Exclude then excludeKeys (getHashOpts ev) s
     else s \<in> set excludableInternalAdapterRequestProperties \<or> excludeKeys opts s"
  shows "hash ev (set_data_field s x P) opts mode = hash ev P opts mode"
proof (cases P)
  case (JObj kvs)
  show ?thesis
  proof (cases "map_of kvs ''data''")
    case None
    then show ?thesis unfolding JObj by simp
  next
    case (Some d)
    have P': "set_data_field s x (JObj kvs) = JObj (put ''data'' (set_field s x d) kvs)"
      using Some by simp
    show ?thesis
    proof (cases "mode = Some Exclude")
      case True
      with assms have "excludeKeys (getHashOpts ev) s" by simp
      from serialize_put_same_text [OF Some set_field_text [of "excludeKeys (getHashOpts ev)" s, OF this]]
      show ?thesis
        unfolding JObj P' True hash_exclude_text by (simp only:)
    next
      case False
      with assms have "s \<in> set excludableInternalAdapterRequestProperties \<or> excludeKeys opts s" by simp
      note same = unset_set_field_text [of s excludableInternalAdapterRequestProperties "excludeKeys opts" x d, OF this]
      from getKeyData_data_changed [OF Some, of ev "set_field s x d"] obtain R
        where R: "map_of R ''data'' = Some (unset excludableInternalAdapterRequestProperties d)"
          "getKeyData ev (JObj kvs) = JObj R"
          "getKeyData ev (JObj (put ''data'' (set_field s x d) kvs))
             = JObj (put ''data'' (unset excludableInternalAdapterRequestProperties (set_field s x d)) R)"
        by blast
      from serialize_put_same_text [OF R(1) same]
      show ?thesis
        unfolding JObj P' hash_include_text [OF False] R(2) R(3) by (simp only:)
    qed
  qed
qed simp_all

lemma getKeyData_text_changes:
  assumes data: "map_of kvs ''data'' = Some (JObj dkvs)" and d: "distinct (map fst dkvs)"
    and k: "map_of dkvs k = Some v0" and int: "k \<notin> set excludableInternalAdapterRequestProperties"
    and nk: "\<not> ex k" and nd: "\<not> ex ''data''" and ne: "serialize ex v \<noteq> serialize ex v0"
  shows "serialize ex (getKeyData ev (set_data_field k v (JObj kvs))) \<noteq> serialize ex (getKeyData ev (JObj kvs))"
proof -
  let ?keep = "filter (\<lambda>(k, v). k \<notin> set excludableInternalAdapterRequestProperties)"
  have P': "set_data_field k v (JObj kvs) = JObj (put ''data'' (JObj (put k v dkvs)) kvs)"
    using data by simp
  from getKeyData_data_changed [OF data, of ev "JObj (put k v dkvs)"] obtain R
    where R: "distinct (map fst R)" "map_of R ''data'' = Some (JObj (?keep dkvs))"
      "getKeyData ev (JObj kvs) = JObj R"
      "getKeyData ev (JObj (put ''data'' (JObj (put k v dkvs)) kvs))
         = JObj (put ''data'' (JObj (?keep (put k v dkvs))) R)"
    by auto
  have keep: "?keep (put k v dkvs) = put k v (?keep dkvs)"
    using int by (intro filter_kept_put)
  have "distinct (map fst (?keep dkvs))"
    using d by (rule distinct_map_filter)
  moreover have "map_of (?keep dkvs) k = Some v0"
    using k int by (simp add: map_of_filter_key)
  ultimately have "serialize ex (JObj (put k v (?keep dkvs))) \<noteq> serialize ex (JObj (?keep dkvs))"
    using nk ne by (rule serialize_put_changes)
  with R(1) R(2) nd
  have "serialize ex (JObj (put ''data'' (JObj (put k v (?keep dkvs))) R)) \<noteq> serialize ex (JObj R)"
    by (rule serialize_put_changes)
  then show ?thesis
    unfolding P' R(3) R(4) keep .
qed

lemma payload_text_changes:
  assumes top: "distinct (map fst kvs)" and data: "map_of kvs ''data'' = Some (JObj dkvs)"
    and d: "distinct (map fst dkvs)" and k: "map_of dkvs k = Some v0"
    and nk: "\<not> ex k" and nd: "\<not> ex ''data''" and ne: "serialize ex v \<noteq> serialize ex v0"
  shows "serialize ex (set_data_field k v (JObj kvs)) \<noteq> serialize ex (JObj kvs)"
proof -
  have P': "set_data_field k v (JObj kvs) = JObj (put ''data'' (JObj (put k v dkvs)) kvs)"
    using data by simp
  from d k nk ne have "serialize ex (JObj (put k v dkvs)) \<noteq> serialize ex (JObj dkvs)"
    by (rule serialize_put_changes)
  with top data nd show ?thesis
    unfolding P' by (rule serialize_put_changes)
qed

text \<open>
  What holds of the fields that are left out and of those that count. Changing a
  top-level field whose name is in \<open>excludableAdapterRequestProperties\<close> leaves the hash
  unchanged: in exclude mode always, in include mode when the name is not among the
  included properties or the given options exclude it (those of \<open>getHashOpts\<close> do).
  Changing a field of \<open>data\<close> leaves the hash unchanged when the name of the field is
  excluded by the options in force, which apply at every depth, and, in include mode,
  also when it is one of \<open>resultPath\<close>, \<open>overrides\<close>, \<open>tokenOverrides\<close>, \<open>includes\<close>. The
  hash is the encoded digest of a text; changing the value of a field of \<open>data\<close> whose
  name is neither left out nor excluded (nor is \<open>data\<close>), to a value with another text,
  changes the text that is digested.
\<close>

lemma hash_volatile_fields:
  "(f \<in> set (excludableAdapterRequestProperties ev)
      \<and> (mode = Some Exclude \<or> f \<notin> set (includableAdapterRequestProperties ev) \<or> excludeKeys opts f)
      \<longrightarrow> hash ev (set_field f x P) opts mode = hash ev P opts mode)
   \<and> ((if mode = Some Exclude then excludeKeys (getHashOpts ev) s
        else s \<in> set excludableInternalAdapterRequestProperties \<or> excludeKeys opts s)
      \<longrightarrow> hash ev (set_data_field s x P) opts mode = hash ev P opts mode)
   \<and> (mode \<noteq> Some Exclude \<longrightarrow>
        hash ev P opts mode =
          Inr (encode (encoding opts) (digest (algorithm opts) (serialize (excludeKeys opts) (getKeyData ev P)))))
   \<and> (map_of kvs ''data'' = Some (JObj dkvs) \<and> distinct (map fst dkvs) \<and> map_of dkvs k = Some v0
        \<and> k \<notin> set excludableInternalAdapterRequestProperties
        \<and> \<not> excludeKeys opts k \<and> \<not> excludeKeys opts ''data''
        \<and> serialize (excludeKeys opts) v \<noteq> serialize (excludeKeys opts) v0
      \<longrightarrow> serialize (excludeKeys opts) (getKeyData ev (set_data_field k v (JObj kvs)))
          \<noteq> serialize (excludeKeys opts) (getKeyData ev (JObj kvs)))
   \<and> hash ev (JObj kvs) opts (Some Exclude) =
        Inr (encode Hex (digest Sha1 (serialize (excludeKeys (getHashOpts ev)) (JObj kvs))))
   \<and> (distinct (map fst kvs) \<and> map_of kvs ''data'' = Some (JObj dkvs) \<and> distinct (map fst dkvs)
        \<and> map_of dkvs k = Some v0
        \<and> \<not> excludeKeys (getHashOpts ev) k \<and> \<not> excludeKeys (getHashOpts ev) ''data''
        \<and> serialize (excludeKeys (getHashOpts ev)) v \<noteq> serialize (excludeKeys (getHashOpts ev)) v0
      \<longrightarrow> serialize (excludeKeys (getHashOpts ev)) (set_data_field k v (JObj kvs))
          \<noteq> serialize (excludeKeys (getHashOpts ev)) (JObj kvs))"
proof (intro conjI impI)
  assume "f \<in> set (excludableAdapterRequestProperties ev)
      \<and> (mode = Some Exclude \<or> f \<notin> set (includableAdapterRequestProperties ev) \<or> excludeKeys opts f)"
  then show "hash ev (set_field f x P) opts mode = hash ev P opts mode"
    by (intro hash_set_field_volatile) simp_all
next
  assume "if mode = Some Exclude then excludeKeys (getHashOpts ev) s
      else s \<in> set excludableInternalAdapterRequestProperties \<or> excludeKeys opts s"
  then show "hash ev (set_data_field s x P) opts mode = hash ev P opts mode"
    by (rule hash_set_data_field_hidden)
next
  assume "mode \<noteq> Some Exclude"
  then show "hash ev P opts mode =
      Inr (encode (encoding opts) (digest (algorithm opts) (serialize (excludeKeys opts) (getKeyData ev P))))"
    by (rule hash_include_text)
next
  assume "map_of kvs ''data'' = Some (JObj dkvs) \<and> distinct (map fst dkvs) \<and> map_of dkvs k = Some v0
        \<and> k \<notin> set excludableInternalAdapterRequestProperties
        \<and> \<not> excludeKeys opts k \<and> \<not> excludeKeys opts ''data''
        \<and> serialize (excludeKeys opts) v \<noteq> serialize (excludeKeys opts) v0"
  then show "serialize (excludeKeys opts) (getKeyData ev (set_data_field k v (JObj kvs)))
      \<noteq> serialize (excludeKeys opts) (getKeyData ev (JObj kvs))"
    by (elim conjE) (rule getKeyData_text_changes)
next
  show "hash ev (JObj kvs) opts (Some Exclude) =
      Inr (encode Hex (digest Sha1 (serialize (excludeKeys (getHashOpts ev)) (JObj kvs))))"
    by (rule hash_exclude_text)
next
  assume "distinct (map fst kvs) \<and> map_of kvs ''data'' = Some (JObj dkvs) \<and> distinct (map fst dkvs)
        \<and> map_of dkvs k = Some v0
        \<and> \<not> excludeKeys (getHashOpts ev) k \<and> \<not> excludeKeys (getHashOpts ev) ''data''
        \<and> serialize (excludeKeys (getHashOpts ev)) v \<noteq> serialize (excludeKeys (getHashOpts ev)) v0"
  then show "serialize (excludeKeys (getHashOpts ev)) (set_data_field k v (JObj kvs))
      \<noteq> serialize (excludeKeys (getHashOpts ev)) (JObj kvs)"
    by (elim conjE) (rule payload_text_changes)
qed


text \<open>
  C3 (the code departs from the claim). \<open>id\<close> is not one of the sub-paths of \<open>data\<close> that
  are left out, so \<open>data.id\<close> is an included field; yet two payloads that differ in
  \<open>data.id\<close> only have the same hash, in include mode with the options of \<open>getHashOpts\<close>
  and in exclude mode: \<open>excludeKeys\<close> looks the key up in the table of the top-level
  names to ignore at every depth of the payload.
\<close>

theorem hash_ignores_data_id:
  "''id'' \<notin> set excludableInternalAdapterRequestProperties
   \<and> set_data_field ''id'' (JStr ''2'') (JObj [(''data'', JObj [(''id'', JStr ''1''), (''base'', JStr ''ETH'')])])
       = JObj [(''data'', JObj [(''id'', JStr ''2''), (''base'', JStr ''ETH'')])]
   \<and> hash default_env (JObj [(''data'', JObj [(''id'', JStr ''2''), (''base'', JStr ''ETH'')])])
         (getHashOpts default_env) None
     = hash default_env (JObj [(''data'', JObj [(''id'', JStr ''1''), (''base'', JStr ''ETH'')])])
         (getHashOpts default_env) None
   \<and> hash default_env (JObj [(''data'', JObj [(''id'', JStr ''2''), (''base'', JStr ''ETH'')])])
         (getHashOpts default_env) (Some Exclude)
     = hash default_env (JObj [(''data'', JObj [(''id'', JStr ''1''), (''base'', JStr ''ETH'')])])
         (getHashOpts default_env) (Some Exclude)
   \<and> serialize (excludeKeys (getHashOpts default_env))
         (JObj [(''data'', JObj [(''id'', JStr ''1''), (''base'', JStr ''ETH'')])])
     = ''object:1:string:4:data:object:1:string:4:base:string:3:ETH,,''
   \<and> serialize (excludeKeys (getHashOpts default_env))
         (JObj [(''data'', JObj [(''id'', JStr ''2''), (''base'', JStr ''ETH'')])])
     = ''object:1:string:4:data:object:1:string:4:base:string:3:ETH,,''"
proof -
  let ?P = "JObj [(''data'', JObj [(''id'', JStr ''1''), (''base'', JStr ''ETH'')])]"
  let ?P' = "JObj [(''data'', JObj [(''id'', JStr ''2''), (''base'', JStr ''ETH'')])]"
  have 1: "''id'' \<notin> set excludableInternalAdapterRequestProperties"
    by (simp add: excludableInternalAdapterRequestProperties_def)
  have 2: "set_data_field ''id'' (JStr ''2'') ?P = ?P'"
    by simp
  have ex: "excludeKeys (getHashOpts default_env) ''id''"
    by (simp add: getHashOpts_def excludableAdapterRequestProperties_def)
  have 3: "hash default_env (set_data_field ''id'' (JStr ''2'') ?P) (getHashOpts default_env) None
      = hash default_env ?P (getHashOpts default_env) None"
    by (rule hash_set_data_field_hidden) (simp add: ex)
  have 4: "hash default_env (set_data_field ''id'' (JStr ''2'') ?P) (getHashOpts default_env) (Some Exclude)
      = hash default_env ?P (getHashOpts default_env) (Some Exclude)"
    by (rule hash_set_data_field_hidden) (simp add: ex)
  have 5: "serialize (excludeKeys (getHashOpts default_env)) ?P
      = ''object:1:string:4:data:object:1:string:4:base:string:3:ETH,,''"
    by code_simp
  have 6: "serialize (excludeKeys (getHashOpts default_env)) ?P'
      = ''object:1:string:4:data:object:1:string:4:base:string:3:ETH,,''"
    by code_simp
  from 1 2 3 4 show ?thesis
    unfolding 5 6 by (simp only: simp_thms)
qed

lemma hash_volatile_fields_example:
  "hash default_env
      (set_field ''id'' (JStr ''2'')
        (JObj [(''id'', JStr ''1''), (''data'', JObj [(''base'', JStr ''ETH''), (''resultPath'', JStr ''price'')])]))
      (getHashOpts default_env) None
     = hash default_env
      (JObj [(''id'', JStr ''1''), (''data'', JObj [(''base'', JStr ''ETH''), (''resultPath'', JStr ''price'')])])
      (getHashOpts default_env) None
   \<and> hash default_env
      (set_data_field ''resultPath'' (JStr ''2'')
        (JObj [(''id'', JStr ''1''), (''data'', JObj [(''base'', JStr ''ETH''), (''resultPath'', JStr ''price'')])]))
      (getHashOpts default_env) None
     = hash default_env
      (JObj [(''id'', JStr ''1''), (''data'', JObj [(''base'', JStr ''ETH''), (''resultPath'', JStr ''price'')])])
      (getHashOpts default_env) None
   \<and> serialize (excludeKeys (getHashOpts default_env))
      (getKeyData default_env (set_data_field ''base'' (JStr ''BTC'')
        (JObj [(''id'', JStr ''1''), (''data'', JObj [(''base'', JStr ''ETH''), (''resultPath'', JStr ''price'')])])))
     \<noteq> serialize (excludeKeys (getHashOpts default_env))
      (getKeyData default_env
        (JObj [(''id'', JStr ''1''), (''data'', JObj [(''base'', JStr ''ETH''), (''resultPath'', JStr ''price'')])]))
   \<and> serialize (excludeKeys (getHashOpts default_env))
      (set_data_field ''base'' (JStr ''BTC'')
        (JObj [(''id'', JStr ''1''), (''data'', JObj [(''base'', JStr ''ETH''), (''resultPath'', JStr ''price'')])]))
     \<noteq> serialize (excludeKeys (getHashOpts default_env))
      (JObj [(''id'', JStr ''1''), (''data'', JObj [(''base'', JStr ''ETH''), (''resultPath'', JStr ''price'')])])"
proof -
  let ?dkvs = "[(''base'', JStr ''ETH''), (''resultPath'', JStr ''price'')]"
  let ?kvs = "[(''id'', JStr ''1''), (''data'', JObj ?dkvs)]"
  let ?opts = "getHashOpts default_env"
  note w = hash_volatile_fields [of "''id''" default_env None ?opts "JStr ''2''" "JObj ?kvs"
      "''resultPath''" ?kvs ?dkvs "''base''" "JStr ''ETH''" "JStr ''BTC''"]
  have id: "''id'' \<in> set (excludableAdapterRequestProperties default_env)"
    by (simp add: excludableAdapterRequestProperties_def)
  have ex_id: "excludeKeys ?opts ''id''"
    using id by (simp add: getHashOpts_def)
  have rp: "''resultPath'' \<in> set excludableInternalAdapterRequestProperties"
    by (simp add: excludableInternalAdapterRequestProperties_def)
  have base: "''base'' \<notin> set excludableInternalAdapterRequestProperties"
    by (simp add: excludableInternalAdapterRequestProperties_def)
  have names: "env_names (CACHE_KEY_IGNORED_PROPS default_env) = []"
    by (simp add: env_names_def default_env_def)
  have ex_base: "\<not> excludeKeys ?opts ''base''"
    by (simp add: getHashOpts_def excludableAdapterRequestProperties_def names Object_prototype_names_def)
  have ex_data: "\<not> excludeKeys ?opts ''data''"
    by (simp add: getHashOpts_def excludableAdapterRequestProperties_def names Object_prototype_names_def)
  have ne: "serialize (excludeKeys ?opts) (JStr ''BTC'') \<noteq> serialize (excludeKeys ?opts) (JStr ''ETH'')"
    by simp
  have kvs: "distinct (map fst ?kvs)" "map_of ?kvs ''data'' = Some (JObj ?dkvs)"
    "distinct (map fst ?dkvs)" "map_of ?dkvs ''base'' = Some (JStr ''ETH'')"
    by simp_all
  have 1: "hash default_env (set_field ''id'' (JStr ''2'') (JObj ?kvs)) ?opts None
      = hash default_env (JObj ?kvs) ?opts None"
    using w id ex_id by (elim conjE) (simp only: simp_thms)
  have 2: "hash default_env (set_data_field ''resultPath'' (JStr ''2'') (JObj ?kvs)) ?opts None
      = hash default_env (JObj ?kvs) ?opts None"
    using w rp by (elim conjE) (simp only: simp_thms option.distinct if_False)
  have 3: "serialize (excludeKeys ?opts) (getKeyData default_env (set_data_field ''base'' (JStr ''BTC'') (JObj ?kvs)))
      \<noteq> serialize (excludeKeys ?opts) (getKeyData default_env (JObj ?kvs))"
    using w kvs base ex_base ex_data ne by (elim conjE) (simp only: simp_thms)
  have 4: "serialize (excludeKeys ?opts) (set_data_field ''base'' (JStr ''BTC'') (JObj ?kvs))
      \<noteq> serialize (excludeKeys ?opts) (JObj ?kvs)"
    using w kvs ex_base ex_data ne by (elim conjE) (simp only: simp_thms)
  from 1 2 3 4 show ?thesis
    by (intro conjI)
qed

end
